theory Spec2Isabelle
  imports Complex_Main
begin

section \<open>Configuration constants\<close>

text \<open>
  The module-level constants of the game. Pixel quantities that only ever enter
  \<open>pygame.Rect\<close> coordinates are integers; the ball constants take part in
  floating-point arithmetic and are embedded in the reals. Python's \<open>float\<close> is
  idealised as \<^typ>\<open>real\<close>; rounding to double precision is modelled where a property
  depends on it, in \<open>reset_double\<close> below.
\<close>

definition WIDTH :: int where "WIDTH = 800"
definition HEIGHT :: int where "HEIGHT = 500"

definition PADDLE_W :: int where "PADDLE_W = 12"
definition PADDLE_H :: int where "PADDLE_H = 100"
definition PADDLE_OFFSET :: int where "PADDLE_OFFSET = 20"
definition PLAYER_SPEED :: int where "PLAYER_SPEED = 7"
definition AI_MAX_SPEED :: real where "AI_MAX_SPEED = 5"

definition BALL_RADIUS :: real where "BALL_RADIUS = 8"
definition BALL_SPEED :: real where "BALL_SPEED = 5"
definition BALL_SPEED_INC :: real where "BALL_SPEED_INC = 1 / 2"
definition BALL_MAX_SPEED :: real where "BALL_MAX_SPEED = 14"

section \<open>Library primitives\<close>

text \<open>Python's \<open>int(y)\<close> on a number: truncation toward zero.\<close>

definition py_int :: "real \<Rightarrow> int" where
  "py_int v = (if 0 \<le> v then \<lfloor>v\<rfloor> else \<lceil>v\<rceil>)"

text \<open>\<open>math.hypot\<close>.\<close>

definition hypot :: "real \<Rightarrow> real \<Rightarrow> real" where
  "hypot a b = sqrt (a\<^sup>2 + b\<^sup>2)"

subsection \<open>Double precision\<close>

text \<open>
  Rounding of a real to the nearest integer, ties to the even one, and with it the
  rounding of a real to the nearest IEEE 754 double: a nonzero \<open>x\<close> with
  \<open>2^e \<le> |x| < 2^(e+1)\<close> is rounded to a multiple of \<open>2^(e-52)\<close>, which leaves 53
  significant bits. The exponent is not bounded: overflow and subnormal numbers are not
  modelled, and no value of a serve comes near either.
\<close>

definition round_even :: "real \<Rightarrow> int" where
  "round_even y =
     (let f = \<lfloor>y\<rfloor>
      in if y - of_int f < 1 / 2 then f
         else if y - of_int f > 1 / 2 then f + 1
         else if even f then f else f + 1)"

definition binary64 :: "real \<Rightarrow> real" where
  "binary64 x =
     (if x = 0 then 0
      else (let q = 2 powi (\<lfloor>log 2 \<bar>x\<bar>\<rfloor> - 52)
            in of_int (round_even (x / q)) * q))"

subsection \<open>The C integers of \<open>pygame.Rect\<close>\<close>

text \<open>
  A \<open>pygame.Rect\<close> keeps its four fields in 32-bit C \<open>int\<close>s. The fields are integers
  of the model; the arithmetic the library does on them wraps around, which \<open>c_int\<close>
  writes out.
\<close>

definition INT_MIN :: int where "INT_MIN = - 2147483648"
definition INT_MAX :: int where "INT_MAX = 2147483647"

definition c_int :: "int \<Rightarrow> int" where
  "c_int n = (n + 2147483648) mod 4294967296 - 2147483648"

text \<open>
  Assigning a Python number to a coordinate converts it to a C \<open>int\<close>. How the library
  converts is not part of this program and has changed between its releases (a float is
  truncated by some, rounded by others; a value out of range is refused by some), so
  the conversion is a parameter of every function that stores a computed number:
  it returns the stored integer, or \<open>None\<close> when the assignment raises. \<open>store_ok\<close> is
  what all releases agree on: what is stored fits a C \<open>int\<close>, and a number within the
  range of a C \<open>int\<close> is accepted and stored to within less than one unit (an integer,
  then, exactly).
\<close>

type_synonym store = "real \<Rightarrow> int option"

definition store_ok :: "store \<Rightarrow> bool" where
  "store_ok st \<longleftrightarrow>
     (\<forall>v n. st v = Some n \<longrightarrow> INT_MIN \<le> n \<and> n \<le> INT_MAX) \<and>
     (\<forall>v. of_int INT_MIN \<le> v \<and> v \<le> of_int INT_MAX \<longrightarrow>
          (\<exists>n. st v = Some n \<and> \<bar>of_int n - v\<bar> < 1))"

text \<open>
  One such conversion: the C cast, which truncates toward zero, refusing what does not
  fit.
\<close>

definition c_cast :: store where
  "c_cast v = (if INT_MIN \<le> py_int v \<and> py_int v \<le> INT_MAX then Some (py_int v) else None)"

text \<open>
  The rectangle. \<open>right\<close> and \<open>bottom\<close> are derived attributes, computed in C;
  assigning to \<open>bottom\<close> or to \<open>centery\<close> (the top plus half the height, rounded down)
  moves the rectangle and keeps its size. The program assigns to them only the
  constants \<open>0\<close> and \<open>HEIGHT\<close> and a value clamped between \<open>PADDLE_H // 2\<close> and
  \<open>HEIGHT - PADDLE_H // 2\<close>: integers that every conversion stores unchanged.
\<close>

record rect =
  rect_left :: int
  rect_top :: int
  rect_width :: int
  rect_height :: int

definition Rect :: "int \<Rightarrow> int \<Rightarrow> int \<Rightarrow> int \<Rightarrow> rect" where
  "Rect x y w h = \<lparr>rect_left = x, rect_top = y, rect_width = w, rect_height = h\<rparr>"

definition rect_right :: "rect \<Rightarrow> int" where
  "rect_right rc = c_int (rect_left rc + rect_width rc)"

definition rect_bottom :: "rect \<Rightarrow> int" where
  "rect_bottom rc = c_int (rect_top rc + rect_height rc)"

definition set_centery :: "int \<Rightarrow> rect \<Rightarrow> rect" where
  "set_centery v rc = rc\<lparr>rect_top := c_int (v - rect_height rc div 2)\<rparr>"

definition set_bottom :: "int \<Rightarrow> rect \<Rightarrow> rect" where
  "set_bottom v rc = rc\<lparr>rect_top := c_int (v - rect_height rc)\<rparr>"

subsection \<open>The random generator\<close>

text \<open>
  The generator behind \<open>random.uniform\<close> and \<open>random.choice\<close>: the sequence of values
  each of the two calls will return, and how many have been consumed so far.
  \<open>uniform_seq\<close> lists the results of \<open>random.uniform(-pi/6, pi/6)\<close>, \<open>choice_seq\<close>
  those of \<open>random.choice([-1, 1])\<close>.
\<close>

record random =
  uniform_seq :: "nat \<Rightarrow> real"
  choice_seq :: "nat \<Rightarrow> int"
  uniform_calls :: nat
  choice_calls :: nat

definition valid_random :: "random \<Rightarrow> bool" where
  "valid_random rd \<longleftrightarrow>
     (\<forall>k. - pi / 6 \<le> uniform_seq rd k \<and> uniform_seq rd k \<le> pi / 6) \<and>
     (\<forall>k. choice_seq rd k = - 1 \<or> choice_seq rd k = 1)"

section \<open>Paddle\<close>

record paddle =
  paddle_rect :: rect
  paddle_speed :: int

definition Paddle :: "int \<Rightarrow> int \<Rightarrow> paddle" where
  "Paddle x y = \<lparr>paddle_rect = Rect x y PADDLE_W PADDLE_H, paddle_speed = PLAYER_SPEED\<rparr>"

definition move_to :: "real \<Rightarrow> paddle \<Rightarrow> paddle" where
  "move_to y p =
     p\<lparr>paddle_rect :=
         set_centery (max (PADDLE_H div 2) (min (HEIGHT - PADDLE_H div 2) (py_int y)))
           (paddle_rect p)\<rparr>"

text \<open>
  \<open>move_by\<close>: \<open>self.rect.y += dy\<close> adds in Python and stores the sum through the
  conversion \<open>st\<close>; when that raises, so does \<open>move_by\<close> (the result \<open>None\<close>).
\<close>

definition move_by :: "store \<Rightarrow> real \<Rightarrow> paddle \<Rightarrow> paddle option" where
  "move_by st dy p =
     (case st (of_int (rect_top (paddle_rect p)) + dy) of
        None \<Rightarrow> None
      | Some y1 \<Rightarrow>
          (let r1 = (paddle_rect p)\<lparr>rect_top := y1\<rparr>;
               r2 = (if rect_top r1 < 0 then r1\<lparr>rect_top := 0\<rparr> else r1);
               r3 = (if rect_bottom r2 > HEIGHT then set_bottom HEIGHT r2 else r2)
           in Some (p\<lparr>paddle_rect := r3\<rparr>)))"

section \<open>Ball\<close>

text \<open>
  The attributes of a \<open>Ball\<close>. Python mixes \<open>int\<close> and \<open>float\<close> values freely here (the
  radius and the initial speed are \<open>int\<close>, positions and velocities \<open>float\<close>); all of
  them are reals in the model.
\<close>

record ball =
  ball_x :: real
  ball_y :: real
  ball_r :: real
  ball_speed :: real
  ball_vx :: real
  ball_vy :: real

text \<open>
  \<open>Ball.reset\<close>. The angle is always drawn; the direction is drawn only when
  \<open>serving_to\<close> is neither \<open>'left'\<close> nor \<open>'right'\<close>.
\<close>

definition reset :: "string option \<Rightarrow> ball \<times> random \<Rightarrow> ball \<times> random" where
  "reset serving_to st =
     (let (b, rd) = st;
          speed = BALL_SPEED;
          angle = uniform_seq rd (uniform_calls rd);
          rd1 = rd\<lparr>uniform_calls := Suc (uniform_calls rd)\<rparr>;
          (dirx, rd2) =
            (if serving_to = Some ''left'' then (- 1, rd1)
             else if serving_to = Some ''right'' then (1, rd1)
             else (choice_seq rd1 (choice_calls rd1),
                   rd1\<lparr>choice_calls := Suc (choice_calls rd1)\<rparr>))
      in (b\<lparr>ball_x := of_int WIDTH / 2,
            ball_y := of_int HEIGHT / 2,
            ball_r := BALL_RADIUS,
            ball_speed := speed,
            ball_vx := of_int dirx * speed * cos angle,
            ball_vy := speed * sin angle\<rparr>, rd2))"

text \<open>
  \<open>Ball.reset\<close> once more, with the arithmetic of the velocity in double precision.
  \<open>math.cos(angle)\<close> and \<open>math.sin(angle)\<close> are taken to return the double nearest to the
  exact value; \<open>dirx * self.speed\<close> is a product of two \<open>int\<close>s and exact, so each
  component is rounded once more, after the product with the cosine or the sine. The
  centre \<open>WIDTH / 2 = 400.0\<close>, \<open>HEIGHT / 2 = 250.0\<close> and the stored speed are exact.
\<close>

definition reset_double :: "string option \<Rightarrow> ball \<times> random \<Rightarrow> ball \<times> random" where
  "reset_double serving_to st =
     (let (b, rd) = st;
          speed = BALL_SPEED;
          angle = uniform_seq rd (uniform_calls rd);
          rd1 = rd\<lparr>uniform_calls := Suc (uniform_calls rd)\<rparr>;
          (dirx, rd2) =
            (if serving_to = Some ''left'' then (- 1, rd1)
             else if serving_to = Some ''right'' then (1, rd1)
             else (choice_seq rd1 (choice_calls rd1),
                   rd1\<lparr>choice_calls := Suc (choice_calls rd1)\<rparr>))
      in (b\<lparr>ball_x := of_int WIDTH / 2,
            ball_y := of_int HEIGHT / 2,
            ball_r := BALL_RADIUS,
            ball_speed := speed,
            ball_vx := binary64 (of_int dirx * speed * binary64 (cos angle)),
            ball_vy := binary64 (speed * binary64 (sin angle))\<rparr>, rd2))"

definition update :: "ball \<Rightarrow> ball" where
  "update b = b\<lparr>ball_x := ball_x b + ball_vx b, ball_y := ball_y b + ball_vy b\<rparr>"

section \<open>Collision geometry and rebound\<close>

definition circle_rect_collision :: "real \<Rightarrow> real \<Rightarrow> real \<Rightarrow> rect \<Rightarrow> bool" where
  "circle_rect_collision cx cy r rc =
     (let closest_x = max (of_int (rect_left rc)) (min cx (of_int (rect_right rc)));
          closest_y = max (of_int (rect_top rc)) (min cy (of_int (rect_bottom rc)));
          dx = cx - closest_x;
          dy = cy - closest_y
      in dx * dx + dy * dy \<le> r * r)"

text \<open>
  \<open>reflect_ball_from_paddle\<close>. Dividing by \<open>paddle.rect.height / 2\<close> raises
  \<open>ZeroDivisionError\<close> for a paddle of height zero; that is the result \<open>None\<close>.
\<close>

definition reflect_ball_from_paddle :: "ball \<Rightarrow> paddle \<Rightarrow> bool \<Rightarrow> ball option" where
  "reflect_ball_from_paddle b p is_left_paddle =
     (let paddle_center =
            of_int (rect_top (paddle_rect p)) + of_int (rect_height (paddle_rect p)) / 2;
          half = of_int (rect_height (paddle_rect p)) / (2::real)
      in if half = 0 then None
         else
           (let relative = (ball_y b - paddle_center) / half;
                relative = max (- 1) (min 1 relative);
                bounce_angle = relative * (pi / 4);
                speed = min BALL_MAX_SPEED (hypot (ball_vx b) (ball_vy b) + BALL_SPEED_INC)
            in Some (b\<lparr>ball_vx :=
                          (if is_left_paddle then \<bar>speed * cos bounce_angle\<bar>
                           else - \<bar>speed * cos bounce_angle\<bar>),
                        ball_vy := speed * sin bounce_angle,
                        ball_speed := speed\<rparr>)))"

section \<open>The main loop\<close>

datatype key = K_ESCAPE | K_SPACE | K_r | K_UP | K_DOWN | K_OTHER

datatype event = QUIT | KEYDOWN key | MOUSEMOTION "int \<times> int" | OTHER_EVENT

text \<open>
  What one iteration of the loop reads from pygame: the queued events, in order, and
  the held state of the two arrow keys.
\<close>

record input =
  events :: "event list"
  up_pressed :: bool
  down_pressed :: bool

text \<open>The local variables of \<open>main\<close> that survive an iteration, and the generator.\<close>

record game =
  left_paddle :: paddle
  right_paddle :: paddle
  ball :: ball
  left_score :: int
  right_score :: int
  running :: bool
  paused :: bool
  rnd :: random

fun handle_event :: "game \<Rightarrow> event \<Rightarrow> game" where
  "handle_event g QUIT = g\<lparr>running := False\<rparr>"
| "handle_event g (KEYDOWN K_ESCAPE) = g\<lparr>running := False\<rparr>"
| "handle_event g (KEYDOWN K_SPACE) = g\<lparr>paused := \<not> paused g\<rparr>"
| "handle_event g (KEYDOWN K_r) =
     (let (b, rd) = reset None (ball g, rnd g)
      in g\<lparr>left_score := 0, right_score := 0, ball := b, rnd := rd, paused := False\<rparr>)"
| "handle_event g (KEYDOWN _) = g"
| "handle_event g (MOUSEMOTION (mx, my)) =
     g\<lparr>left_paddle := move_to (of_int my) (left_paddle g)\<rparr>"
| "handle_event g OTHER_EVENT = g"

definition handle_events :: "event list \<Rightarrow> game \<Rightarrow> game" where
  "handle_events es g = foldl handle_event g es"

text \<open>The two tests on the held keys, lines 156-160; either \<open>move_by\<close> may raise.\<close>

definition key_up :: "store \<Rightarrow> input \<Rightarrow> game \<Rightarrow> game option" where
  "key_up st inp g =
     (if up_pressed inp
      then (case move_by st (of_int (- paddle_speed (left_paddle g))) (left_paddle g) of
              None \<Rightarrow> None
            | Some p \<Rightarrow> Some (g\<lparr>left_paddle := p\<rparr>))
      else Some g)"

definition key_down :: "store \<Rightarrow> input \<Rightarrow> game \<Rightarrow> game option" where
  "key_down st inp g =
     (if down_pressed inp
      then (case move_by st (of_int (paddle_speed (left_paddle g))) (left_paddle g) of
              None \<Rightarrow> None
            | Some p \<Rightarrow> Some (g\<lparr>left_paddle := p\<rparr>))
      else Some g)"

definition handle_keys :: "store \<Rightarrow> input \<Rightarrow> game \<Rightarrow> game option" where
  "handle_keys st inp g =
     (case key_up st inp g of None \<Rightarrow> None | Some g1 \<Rightarrow> key_down st inp g1)"

text \<open>Lines 138-160 of the loop body: everything that runs before the pause check.\<close>

definition handle_input :: "store \<Rightarrow> input \<Rightarrow> game \<Rightarrow> game option" where
  "handle_input st inp g = handle_keys st inp (handle_events (events inp) g)"

definition ai_diff :: "game \<Rightarrow> real" where
  "ai_diff g =
     (let target_y = ball_y (ball g)
      in target_y - (of_int (rect_top (paddle_rect (right_paddle g)))
                     + of_int (rect_height (paddle_rect (right_paddle g))) / 2))"

definition ai_step :: "store \<Rightarrow> game \<Rightarrow> game option" where
  "ai_step st g =
     (let diff = ai_diff g
      in if \<bar>diff\<bar> > 4
         then (let move = max (- AI_MAX_SPEED) (min AI_MAX_SPEED diff)
               in case move_by st move (right_paddle g) of
                    None \<Rightarrow> None
                  | Some p \<Rightarrow> Some (g\<lparr>right_paddle := p\<rparr>))
         else Some g)"

definition wall_collision :: "ball \<Rightarrow> ball" where
  "wall_collision b =
     (if ball_y b - ball_r b \<le> 0
      then b\<lparr>ball_y := ball_r b, ball_vy := - ball_vy b\<rparr>
      else if ball_y b + ball_r b \<ge> of_int HEIGHT
      then b\<lparr>ball_y := of_int HEIGHT - ball_r b, ball_vy := - ball_vy b\<rparr>
      else b)"

definition left_paddle_collision :: "paddle \<Rightarrow> ball \<Rightarrow> ball option" where
  "left_paddle_collision p b =
     (if circle_rect_collision (ball_x b) (ball_y b) (ball_r b) (paddle_rect p)
      then reflect_ball_from_paddle
             (b\<lparr>ball_x := of_int (rect_right (paddle_rect p)) + ball_r b\<rparr>) p True
      else Some b)"

definition right_paddle_collision :: "paddle \<Rightarrow> ball \<Rightarrow> ball option" where
  "right_paddle_collision p b =
     (if circle_rect_collision (ball_x b) (ball_y b) (ball_r b) (paddle_rect p)
      then reflect_ball_from_paddle
             (b\<lparr>ball_x := of_int (rect_left (paddle_rect p)) - ball_r b\<rparr>) p False
      else Some b)"

text \<open>
  Lines 174-200: AI, ball advance, wall bounce and the two paddle tests. The result is
  the state the scoring test of line 203 looks at.
\<close>

definition move_and_collide :: "store \<Rightarrow> game \<Rightarrow> game option" where
  "move_and_collide st g =
     (case ai_step st g of
        None \<Rightarrow> None
      | Some g1 \<Rightarrow>
          (case left_paddle_collision (left_paddle g1) (wall_collision (update (ball g1))) of
             None \<Rightarrow> None
           | Some b2 \<Rightarrow>
               (case right_paddle_collision (right_paddle g1) b2 of
                  None \<Rightarrow> None
                | Some b3 \<Rightarrow> Some (g1\<lparr>ball := b3\<rparr>))))"

definition score_check :: "game \<Rightarrow> game" where
  "score_check g =
     (if ball_x (ball g) - ball_r (ball g) \<le> 0
      then (let (b, rd) = reset (Some ''right'') (ball g, rnd g)
            in g\<lparr>right_score := right_score g + 1, ball := b, rnd := rd\<rparr>)
      else if ball_x (ball g) + ball_r (ball g) \<ge> of_int WIDTH
      then (let (b, rd) = reset (Some ''left'') (ball g, rnd g)
            in g\<lparr>left_score := left_score g + 1, ball := b, rnd := rd\<rparr>)
      else g)"

definition physics :: "store \<Rightarrow> game \<Rightarrow> game option" where
  "physics st g = map_option score_check (move_and_collide st g)"

text \<open>
  One iteration of \<open>while running\<close>. Rendering and \<open>clock.tick\<close> change none of the
  variables above (\<open>dt\<close> is never read) and are left out.
\<close>

definition tick :: "store \<Rightarrow> input \<Rightarrow> game \<Rightarrow> game option" where
  "tick st inp g =
     (case handle_input st inp g of
        None \<Rightarrow> None
      | Some g1 \<Rightarrow> if paused g1 then Some g1 else physics st g1)"

text \<open>The loop, fed one input snapshot per iteration, for as long as snapshots last.\<close>

fun main_loop :: "store \<Rightarrow> input list \<Rightarrow> game \<Rightarrow> game option" where
  "main_loop st [] g = Some g"
| "main_loop st (inp # inps) g =
     (if running g
      then (case tick st inp g of None \<Rightarrow> None | Some g' \<Rightarrow> main_loop st inps g')
      else Some g)"

text \<open>The state \<open>main\<close> builds before entering the loop.\<close>

definition initial_game :: "random \<Rightarrow> game" where
  "initial_game rd0 =
     (let (b, rd) = reset None
            (\<lparr>ball_x = 0, ball_y = 0, ball_r = 0, ball_speed = 0, ball_vx = 0, ball_vy = 0\<rparr>,
             rd0)
      in \<lparr>left_paddle = Paddle PADDLE_OFFSET ((HEIGHT - PADDLE_H) div 2),
          right_paddle = Paddle (WIDTH - PADDLE_W - PADDLE_OFFSET) ((HEIGHT - PADDLE_H) div 2),
          ball = b,
          left_score = 0,
          right_score = 0,
          running = True,
          paused = False,
          rnd = rd\<rparr>)"

section \<open>Vocabulary of the properties\<close>

text \<open>
  A paddle's rectangle lies vertically inside the field: from its top edge down to its
  true bottom edge (top plus height, not wrapped) it stays between \<open>0\<close> and \<open>HEIGHT\<close>.
\<close>

definition within_field :: "paddle \<Rightarrow> bool" where
  "within_field p \<longleftrightarrow>
     0 \<le> rect_top (paddle_rect p)
     \<and> rect_top (paddle_rect p) \<le> rect_top (paddle_rect p) + rect_height (paddle_rect p)
     \<and> rect_top (paddle_rect p) + rect_height (paddle_rect p) \<le> HEIGHT"





text \<open>An input snapshot that carries neither a pause toggle nor a reset command.\<close>

definition quiet :: "input \<Rightarrow> bool" where
  "quiet inp \<longleftrightarrow>
     KEYDOWN K_SPACE \<notin> set (events inp) \<and> KEYDOWN K_r \<notin> set (events inp)"

text \<open>What a rebound is observed to produce: the new velocity and the cached speed.\<close>

definition rebound_result :: "ball \<Rightarrow> real \<times> real \<times> real" where
  "rebound_result b = (ball_vx b, ball_vy b, ball_speed b)"

section \<open>Concrete states\<close>

text \<open>A generator that always draws angle 0 and direction \<open>+1\<close>.\<close>

definition rd0 :: random where
  "rd0 = \<lparr>uniform_seq = (\<lambda>_. 0), choice_seq = (\<lambda>_. 1), uniform_calls = 0, choice_calls = 0\<rparr>"

text \<open>A second generator, drawing angle \<open>pi / 6\<close> and direction \<open>-1\<close>.\<close>

definition rd1 :: random where
  "rd1 = \<lparr>uniform_seq = (\<lambda>_. pi / 6), choice_seq = (\<lambda>_. - 1),
           uniform_calls = 0, choice_calls = 0\<rparr>"



definition ball0 :: ball where
  "ball0 = \<lparr>ball_x = 400, ball_y = 250, ball_r = 8, ball_speed = 5, ball_vx = 5, ball_vy = 0\<rparr>"

definition paddleL :: paddle where
  "paddleL = \<lparr>paddle_rect = \<lparr>rect_left = 20, rect_top = 200, rect_width = 12, rect_height = 100\<rparr>,
              paddle_speed = 7\<rparr>"

definition paddleR :: paddle where
  "paddleR = \<lparr>paddle_rect = \<lparr>rect_left = 768, rect_top = 200, rect_width = 12, rect_height = 100\<rparr>,
              paddle_speed = 7\<rparr>"

text \<open>The left paddle with its top at the largest C \<open>int\<close>.\<close>

definition paddle_far :: paddle where
  "paddle_far = paddleL\<lparr>paddle_rect :=
     \<lparr>rect_left = 20, rect_top = 2147483647, rect_width = 12, rect_height = 100\<rparr>\<rparr>"


text \<open>A ball arriving at the vertical centre of the left paddle, and the ball it becomes.\<close>

definition ball_in :: ball where
  "ball_in = \<lparr>ball_x = 40, ball_y = 250, ball_r = 8, ball_speed = 5, ball_vx = - 5, ball_vy = 0\<rparr>"

definition ball_out :: ball where
  "ball_out = \<lparr>ball_x = 40, ball_y = 250, ball_r = 8, ball_speed = 11 / 2,
               ball_vx = 11 / 2, ball_vy = 0\<rparr>"

text \<open>\<open>ball_in\<close> elsewhere on the \<open>x\<close> axis and with another cached speed.\<close>

definition ball_in2 :: ball where
  "ball_in2 = ball_in\<lparr>ball_x := 99, ball_speed := 1\<rparr>"

text \<open>The state at the start of a match when the first serve goes right at angle 0.\<close>

definition game0 :: game where
  "game0 = \<lparr>left_paddle = paddleL, right_paddle = paddleR, ball = ball0,
            left_score = 0, right_score = 0, running = True, paused = False,
            rnd = rd0\<lparr>uniform_calls := 1, choice_calls := 1\<rparr>\<rparr>"

definition idle :: input where
  "idle = \<lparr>events = [], up_pressed = False, down_pressed = False\<rparr>"

text \<open>\<open>game0\<close> one running tick later, and \<open>game0\<close> paused.\<close>

definition game1 :: game where
  "game1 = game0\<lparr>ball := ball0\<lparr>ball_x := 405\<rparr>\<rparr>"

definition paused0 :: game where
  "paused0 = game0\<lparr>paused := True\<rparr>"

text \<open>A snapshot with only the Up key held, and the paused state one such tick later.\<close>

definition up_held :: input where
  "up_held = \<lparr>events = [], up_pressed = True, down_pressed = False\<rparr>"

definition paused0_up :: game where
  "paused0_up = paused0\<lparr>left_paddle :=
     paddleL\<lparr>paddle_rect := \<lparr>rect_left = 20, rect_top = 193, rect_width = 12, rect_height = 100\<rparr>\<rparr>\<rparr>"

text \<open>
  A snapshot with one mouse-motion event to \<open>y = 100\<close>, and the paused state one such
  tick later.
\<close>

definition mouse_100 :: input where
  "mouse_100 = \<lparr>events = [MOUSEMOTION (300, 100)], up_pressed = False, down_pressed = False\<rparr>"

definition paused0_mouse :: game where
  "paused0_mouse = paused0\<lparr>left_paddle :=
     paddleL\<lparr>paddle_rect := \<lparr>rect_left = 20, rect_top = 50, rect_width = 12, rect_height = 100\<rparr>\<rparr>\<rparr>"

text \<open>
  A paused game at 2 : 3 with the ball off centre, a snapshot in which the reset key is
  followed by the pause key, and the state one such tick later.
\<close>

definition paused_23 :: game where
  "paused_23 = game1\<lparr>left_score := 2, right_score := 3, paused := True\<rparr>"

definition reset_then_pause :: input where
  "reset_then_pause =
     \<lparr>events = [KEYDOWN K_r, KEYDOWN K_SPACE], up_pressed = False, down_pressed = False\<rparr>"

definition paused_00 :: game where
  "paused_00 = game0\<lparr>paused := True, rnd := rd0\<lparr>uniform_calls := 2, choice_calls := 2\<rparr>\<rparr>"

text \<open>The ball 50 pixels below the AI paddle's centre, and the state one tick later.\<close>

definition game_far :: game where
  "game_far = game0\<lparr>ball := ball0\<lparr>ball_y := 300\<rparr>\<rparr>"

definition game_far_next :: game where
  "game_far_next =
     game0\<lparr>ball := ball0\<lparr>ball_x := 405, ball_y := 300\<rparr>,
           right_paddle := paddleR\<lparr>paddle_rect :=
             \<lparr>rect_left = 768, rect_top = 205, rect_width = 12, rect_height = 100\<rparr>\<rparr>\<rparr>"

text \<open>The ball 4.5 pixels below the AI paddle's centre, and the state one tick later.\<close>

definition game_near :: game where
  "game_near = game0\<lparr>ball := ball0\<lparr>ball_y := 509 / 2\<rparr>\<rparr>"

definition game_near_next :: game where
  "game_near_next =
     game0\<lparr>ball := ball0\<lparr>ball_x := 405, ball_y := 509 / 2\<rparr>,
           right_paddle := paddleR\<lparr>paddle_rect :=
             \<lparr>rect_left = 768, rect_top = 204, rect_width = 12, rect_height = 100\<rparr>\<rparr>\<rparr>"

text \<open>
  The ball about to leave through the left boundary, the state at the scoring test, and
  the state after the tick; then the same on the right.
\<close>

definition exit_left :: game where
  "exit_left = game0\<lparr>ball := ball0\<lparr>ball_x := 10, ball_vx := - 5\<rparr>\<rparr>"

definition exit_left_mid :: game where
  "exit_left_mid = game0\<lparr>ball := ball0\<lparr>ball_x := 5, ball_vx := - 5\<rparr>\<rparr>"

definition exit_left_next :: game where
  "exit_left_next =
     game0\<lparr>right_score := 1, ball := ball0, rnd := rd0\<lparr>uniform_calls := 2, choice_calls := 1\<rparr>\<rparr>"

definition exit_right :: game where
  "exit_right = game0\<lparr>ball := ball0\<lparr>ball_x := 790\<rparr>\<rparr>"

definition exit_right_mid :: game where
  "exit_right_mid = game0\<lparr>ball := ball0\<lparr>ball_x := 795\<rparr>\<rparr>"

definition exit_right_next :: game where
  "exit_right_next =
     game0\<lparr>left_score := 1, ball := ball0\<lparr>ball_vx := - 5\<rparr>,
           rnd := rd0\<lparr>uniform_calls := 2, choice_calls := 1\<rparr>\<rparr>"

section \<open>Basic facts\<close>

lemmas config_defs =
  WIDTH_def HEIGHT_def PADDLE_W_def PADDLE_H_def PADDLE_OFFSET_def PLAYER_SPEED_def
  AI_MAX_SPEED_def BALL_RADIUS_def BALL_SPEED_def BALL_SPEED_INC_def BALL_MAX_SPEED_def

lemma cos_pos_of_abs: "\<bar>a\<bar> < pi / 2 \<Longrightarrow> 0 < cos a"
  by (rule cos_gt_zero_pi) auto

text \<open>Inside a cone of half-angle \<open>c\<close> the slope is at most \<open>tan c\<close>.\<close>

lemma abs_sin_le_tan_cos:
  assumes "\<bar>a\<bar> \<le> c" and "c < pi / 2"
  shows "\<bar>sin a\<bar> \<le> tan c * cos a"
proof -
  have ca: "0 < cos a" using assms by (intro cos_pos_of_abs) linarith
  have up: "tan a \<le> tan c" using assms by (intro tan_mono_le) (auto simp: abs_le_iff)
  have "tan (- c) \<le> tan a" using assms by (intro tan_mono_le) (auto simp: abs_le_iff)
  then have lo: "- tan c \<le> tan a" by simp
  have "\<bar>tan a\<bar> \<le> tan c" using up lo by (simp add: abs_le_iff)
  then have "\<bar>tan a\<bar> * cos a \<le> tan c * cos a"
    using ca by (simp add: mult_right_mono)
  moreover have "\<bar>tan a\<bar> * cos a = \<bar>sin a\<bar>"
    using ca by (simp add: tan_def abs_mult abs_divide)
  ultimately show ?thesis by simp
qed

lemma hypot_scaled:
  assumes "d = 1 \<or> d = - 1" and "0 \<le> s"
  shows "hypot (d * s * cos a) (s * sin a) = s"
proof -
  have "d\<^sup>2 = 1" using assms(1) by auto
  then have "(d * s * cos a)\<^sup>2 + (s * sin a)\<^sup>2 = s\<^sup>2 * (cos a)\<^sup>2 + s\<^sup>2 * (sin a)\<^sup>2"
    by (simp add: power_mult_distrib)
  also have "\<dots> = s\<^sup>2 * ((cos a)\<^sup>2 + (sin a)\<^sup>2)"
    by (simp only: distrib_left)
  also have "\<dots> = s\<^sup>2" by simp
  finally show ?thesis using assms(2) by (simp add: hypot_def)
qed

lemma py_int_of_int [simp]: "py_int (of_int n) = n"
  by (simp add: py_int_def)

subsection \<open>C integers and the conversion\<close>

lemma c_int_id: "INT_MIN \<le> n \<Longrightarrow> n \<le> INT_MAX \<Longrightarrow> c_int n = n"
  by (simp add: c_int_def INT_MIN_def INT_MAX_def)

lemma store_ok_range: "store_ok st \<Longrightarrow> st v = Some n \<Longrightarrow> INT_MIN \<le> n \<and> n \<le> INT_MAX"
  unfolding store_ok_def by blast

lemma store_ok_near:
  "store_ok st \<Longrightarrow> of_int INT_MIN \<le> v \<Longrightarrow> v \<le> of_int INT_MAX \<Longrightarrow>
   \<exists>n. st v = Some n \<and> \<bar>of_int n - v\<bar> < 1"
  unfolding store_ok_def by blast

text \<open>An integer within range is stored as it is.\<close>

lemma store_ok_int:
  assumes "store_ok st" and "INT_MIN \<le> k" and "k \<le> INT_MAX"
  shows "st (of_int k) = Some k"
proof -
  have "of_int INT_MIN \<le> (of_int k :: real)" "(of_int k :: real) \<le> of_int INT_MAX"
    using assms(2,3) by simp_all
  from store_ok_near [OF assms(1) this] obtain n
    where n: "st (of_int k) = Some n" "\<bar>of_int n - (of_int k :: real)\<bar> < 1" by blast
  have "\<bar>real_of_int (n - k)\<bar> < 1" using n(2) by simp
  then have "\<bar>n - k\<bar> < 1" by linarith
  then show ?thesis using n(1) by simp
qed

lemma py_int_near: "\<bar>of_int (py_int v) - v\<bar> < 1"
  unfolding py_int_def by (auto simp: abs_less_iff) linarith+

lemma py_int_mono: "of_int a \<le> v \<Longrightarrow> v \<le> of_int b \<Longrightarrow> a \<le> py_int v \<and> py_int v \<le> b"
  unfolding py_int_def by (auto simp: le_floor_iff floor_le_iff le_ceiling_iff ceiling_le_iff)

lemma c_cast_ok: "store_ok c_cast"
  unfolding store_ok_def
proof (intro conjI allI impI)
  fix v n assume "c_cast v = Some n"
  then show "INT_MIN \<le> n" "n \<le> INT_MAX" by (auto simp: c_cast_def split: if_splits)
next
  fix v :: real assume "of_int INT_MIN \<le> v \<and> v \<le> of_int INT_MAX"
  then have "INT_MIN \<le> py_int v \<and> py_int v \<le> INT_MAX" using py_int_mono by blast
  then show "\<exists>n. c_cast v = Some n \<and> \<bar>of_int n - v\<bar> < 1"
    using py_int_near [of v] by (simp add: c_cast_def)
qed

lemma c_cast_of_int: "INT_MIN \<le> k \<Longrightarrow> k \<le> INT_MAX \<Longrightarrow> c_cast (of_int k) = Some k"
  by (simp add: c_cast_def)

text \<open>
  Storing \<open>t + m\<close> into a coordinate that held \<open>t\<close> moves it by at most the bound on \<open>m\<close>,
  as long as the sum is within the range of a C \<open>int\<close>.
\<close>

lemma store_shift:
  assumes "store_ok st" and "st (of_int t + m) = Some n" and "\<bar>m\<bar> \<le> of_int k"
    and "of_int INT_MIN \<le> of_int t + m" and "of_int t + m \<le> of_int INT_MAX"
  shows "\<bar>n - t\<bar> \<le> k"
proof -
  from store_ok_near [OF assms(1,4,5)] assms(2)
  have near: "\<bar>of_int n - (of_int t + m)\<bar> < 1" by auto
  have "real_of_int (n - t) < real_of_int (k + 1)" "real_of_int (t - n) < real_of_int (k + 1)"
    using near assms(3) by (simp_all add: abs_less_iff abs_le_iff)
  then have "n - t < k + 1" "t - n < k + 1" by (simp_all only: of_int_less_iff)
  then have "\<bar>n - t\<bar> < k + 1" by linarith
  then show ?thesis by simp
qed

section \<open>Paddle motion\<close>

lemma move_to_frame [simp]:
  "rect_height (paddle_rect (move_to y p)) = rect_height (paddle_rect p)"
  "rect_left (paddle_rect (move_to y p)) = rect_left (paddle_rect p)"
  "rect_width (paddle_rect (move_to y p)) = rect_width (paddle_rect p)"
  "paddle_speed (move_to y p) = paddle_speed p"
  by (simp_all add: move_to_def set_centery_def)

lemma move_by_frame:
  assumes "move_by st dy p = Some p'"
  shows "rect_height (paddle_rect p') = rect_height (paddle_rect p)"
    "rect_left (paddle_rect p') = rect_left (paddle_rect p)"
    "rect_width (paddle_rect p') = rect_width (paddle_rect p)"
    "paddle_speed p' = paddle_speed p"
  using assms
  by (auto simp: move_by_def Let_def set_bottom_def split: option.splits if_splits)

text \<open>Where \<open>move_to\<close> puts a paddle of the standard height.\<close>

lemma move_to_top:
  assumes "rect_height (paddle_rect p) = PADDLE_H"
  shows "rect_top (paddle_rect (move_to y p)) = max 50 (min 450 (py_int y)) - 50"
proof -
  have "c_int (max 50 (min 450 (py_int y)) - 50) = max 50 (min 450 (py_int y)) - 50"
    by (rule c_int_id) (simp_all add: INT_MIN_def INT_MAX_def)
  then show ?thesis using assms by (simp add: move_to_def set_centery_def config_defs)
qed

lemma move_to_within:
  assumes "rect_height (paddle_rect p) = PADDLE_H"
  shows "within_field (move_to y p)"
  using assms move_to_top [OF assms, of y]
  by (simp add: within_field_def config_defs)

text \<open>
  What \<open>move_by\<close> does to a paddle of the standard height when the stored coordinate
  leaves room for the height below \<open>INT_MAX\<close>: the top is clamped to \<open>[0, HEIGHT - PADDLE_H]\<close>.
\<close>

lemma move_by_top:
  assumes "rect_height (paddle_rect p) = PADDLE_H"
    and "st (of_int (rect_top (paddle_rect p)) + dy) = Some n"
    and "INT_MIN \<le> n" and "n \<le> INT_MAX - PADDLE_H"
  shows "\<exists>p'. move_by st dy p = Some p'
           \<and> rect_top (paddle_rect p') = max 0 (min (HEIGHT - PADDLE_H) n)"
proof -
  define t2 where "t2 = max 0 n"
  have t2: "0 \<le> t2" "t2 \<le> INT_MAX - 100"
    using assms(4) by (simp_all add: t2_def INT_MAX_def PADDLE_H_def)
  have b: "c_int (t2 + 100) = t2 + 100"
    using t2 by (intro c_int_id) (simp_all add: INT_MIN_def INT_MAX_def)
  have c: "c_int 400 = 400" by (simp add: c_int_def)
  let ?r1 = "(paddle_rect p)\<lparr>rect_top := n\<rparr>"
  let ?r2 = "(paddle_rect p)\<lparr>rect_top := t2\<rparr>"
  have r2: "(if rect_top ?r1 < 0 then ?r1\<lparr>rect_top := 0\<rparr> else ?r1) = ?r2"
    by (simp add: t2_def max_def)
  have bot: "rect_bottom ?r2 = t2 + 100"
    using assms(1) b by (simp add: rect_bottom_def PADDLE_H_def)
  have r3: "rect_top (if rect_bottom ?r2 > HEIGHT then set_bottom HEIGHT ?r2 else ?r2)
              = max 0 (min (HEIGHT - PADDLE_H) n)"
    using assms(1) c unfolding bot
    by (simp add: set_bottom_def config_defs t2_def)
  have "move_by st dy p =
          Some (p\<lparr>paddle_rect := (if rect_bottom ?r2 > HEIGHT then set_bottom HEIGHT ?r2 else ?r2)\<rparr>)"
    using assms(2) r2 by (simp add: move_by_def Let_def)
  then show ?thesis using r3 by simp
qed

lemma move_by_within:
  assumes "store_ok st" and "rect_height (paddle_rect p) = PADDLE_H" and "within_field p"
    and "\<bar>dy\<bar> \<le> of_int (INT_MAX - HEIGHT)"
  shows "\<exists>p'. move_by st dy p = Some p' \<and> within_field p'
           \<and> rect_bottom (paddle_rect p') \<le> HEIGHT"
proof -
  define t where "t = rect_top (paddle_rect p)"
  have t: "0 \<le> t" "t \<le> 400"
    using assms(2,3) by (simp_all add: within_field_def t_def config_defs)
  have dy: "- 2147483147 \<le> dy" "dy \<le> 2147483147"
    using assms(4) by (simp_all add: INT_MAX_def HEIGHT_def abs_le_iff)
  have lo: "of_int INT_MIN \<le> of_int t + dy" and hi: "of_int t + dy \<le> of_int INT_MAX"
    using t dy by (simp_all add: INT_MIN_def INT_MAX_def)
  from store_ok_near [OF assms(1) lo hi] obtain n
    where n: "st (of_int t + dy) = Some n" "\<bar>of_int n - (of_int t + dy)\<bar> < 1" by blast
  have "real_of_int n < of_int t + dy + 1" using n(2) by (simp add: abs_less_iff)
  also have "\<dots> \<le> 2147483548" using t dy by simp
  finally have "n < 2147483548" by linarith
  then have n_hi: "n \<le> INT_MAX - PADDLE_H" by (simp add: INT_MAX_def PADDLE_H_def)
  have n_lo: "INT_MIN \<le> n" using store_ok_range [OF assms(1) n(1)] by simp
  from move_by_top [of p st dy n, OF assms(2) n(1) [unfolded t_def] n_lo n_hi] obtain p'
    where p': "move_by st dy p = Some p'"
      "rect_top (paddle_rect p') = max 0 (min (HEIGHT - PADDLE_H) n)" by blast
  have h: "rect_height (paddle_rect p') = 100"
    using move_by_frame(1) [OF p'(1)] assms(2) by (simp add: PADDLE_H_def)
  have top: "0 \<le> rect_top (paddle_rect p')" "rect_top (paddle_rect p') \<le> 400"
    unfolding p'(2) by (simp_all add: config_defs)
  have "c_int (rect_top (paddle_rect p') + 100) = rect_top (paddle_rect p') + 100"
    using top by (intro c_int_id) (simp_all add: INT_MIN_def INT_MAX_def)
  then show ?thesis using p'(1) top h by (simp add: within_field_def rect_bottom_def HEIGHT_def)
qed






lemma bottom_paddle_far: "rect_bottom (paddle_rect paddle_far) = - 2147483549"
  by (simp add: paddle_far_def paddleL_def rect_bottom_def c_int_def)





section \<open>Serving\<close>

text \<open>In exact arithmetic the served velocity has the magnitude \<open>BALL_SPEED\<close>.\<close>

lemma reset_hypot_exact:
  assumes "valid_random rd"
  shows "hypot (ball_vx (fst (reset serving_to (b, rd)))) (ball_vy (fst (reset serving_to (b, rd))))
           = BALL_SPEED"
proof -
  define a where "a = uniform_seq rd (uniform_calls rd)"
  define d :: real where "d = of_int (choice_seq rd (choice_calls rd))"
  have "choice_seq rd (choice_calls rd) = - 1 \<or> choice_seq rd (choice_calls rd) = 1"
    using assms unfolding valid_random_def by blast
  then have d: "d = 1 \<or> d = - 1" unfolding d_def by auto
  have h: "hypot (x * 5 * cos a) (5 * sin a) = 5" if "x = 1 \<or> x = - 1" for x :: real
    using hypot_scaled [OF that, of 5 a] by simp
  show ?thesis
    using d h[of 1] h[of "-1"] h[of d]
    by (auto simp: reset_def Let_def BALL_SPEED_def a_def[symmetric] d_def[symmetric]
        split: prod.splits)
qed

subsection \<open>The serve in double precision\<close>















text \<open>Rounding to double precision keeps the sign.\<close>

lemma round_even_ge: "of_int k \<le> y \<Longrightarrow> k \<le> round_even y"
proof -
  assume "of_int k \<le> y"
  then have "k \<le> \<lfloor>y\<rfloor>" by (simp add: le_floor_iff)
  then show ?thesis by (auto simp: round_even_def Let_def)
qed

lemma round_even_le: "y \<le> of_int k \<Longrightarrow> round_even y \<le> k"
proof -
  assume y: "y \<le> of_int k"
  then have f: "\<lfloor>y\<rfloor> \<le> k" by (simp add: floor_le_iff)
  show ?thesis
  proof (cases "\<lfloor>y\<rfloor> = k")
    case True
    then have "of_int k \<le> y" by (metis of_int_floor_le)
    with y have "y = of_int k" by simp
    then show ?thesis by (simp add: round_even_def Let_def)
  next
    case False
    with f have "\<lfloor>y\<rfloor> + 1 \<le> k" by simp
    then show ?thesis using f by (auto simp: round_even_def Let_def)
  qed
qed

lemma binary64_scale:
  assumes "x \<noteq> 0"
  shows "2 powi 52 \<le> \<bar>x\<bar> / 2 powi (\<lfloor>log 2 \<bar>x\<bar>\<rfloor> - 52)"
proof -
  define e where "e = \<lfloor>log 2 \<bar>x\<bar>\<rfloor>"
  have "2 powr of_int e \<le> \<bar>x\<bar>"
    using assms floor_log_eq_powr_iff [of "\<bar>x\<bar>" 2 e] by (simp add: e_def)
  then have p: "2 powi e \<le> \<bar>x\<bar>" by (simp add: powr_real_of_int')
  have a: "1 \<le> \<bar>x\<bar> / 2 powi e" using p by (simp add: field_simps)
  have "(2::real) powi 52 = 1 * 2 powi 52" by simp
  also have "\<dots> \<le> \<bar>x\<bar> / 2 powi e * 2 powi 52"
    using a by (intro mult_right_mono) simp_all
  also have "\<dots> = \<bar>x\<bar> / 2 powi (e - 52)" by (simp add: power_int_diff)
  finally show ?thesis unfolding e_def .
qed

lemma binary64_pos:
  assumes "0 < x"
  shows "0 < binary64 x"
proof -
  define q :: real where "q = 2 powi (\<lfloor>log 2 \<bar>x\<bar>\<rfloor> - 52)"
  have q: "0 < q" by (simp add: q_def)
  have "2 powi 52 \<le> x / q" using binary64_scale [of x] assms by (simp add: q_def)
  then have "of_int 1 \<le> x / q" by simp
  then have "1 \<le> round_even (x / q)" by (rule round_even_ge)
  then have "0 < real_of_int (round_even (x / q))" by simp
  then have "0 < real_of_int (round_even (x / q)) * q" using q by simp
  then show ?thesis using assms by (simp add: binary64_def q_def Let_def)
qed

lemma binary64_neg:
  assumes "x < 0"
  shows "binary64 x < 0"
proof -
  define q :: real where "q = 2 powi (\<lfloor>log 2 \<bar>x\<bar>\<rfloor> - 52)"
  have q: "0 < q" by (simp add: q_def)
  have "2 powi 52 \<le> - x / q" using binary64_scale [of x] assms by (simp add: q_def)
  then have "x / q \<le> of_int (- 1)" by simp
  then have "round_even (x / q) \<le> - 1" by (rule round_even_le)
  then have "real_of_int (round_even (x / q)) < 0" by simp
  then have "real_of_int (round_even (x / q)) * q < 0" using q by (simp add: mult_less_0_iff)
  then show ?thesis using assms by (simp add: binary64_def q_def Let_def)
qed

text \<open>
  In double precision the serve still has the horizontal sign of its side, the field
  centre and the stored speed.
\<close>

lemma reset_double_serve:
  assumes "valid_random rd"
  shows "ball_vx (fst (reset_double (Some ''left'') (b, rd))) < 0"
    and "ball_vx (fst (reset_double (Some ''right'') (b, rd))) > 0"
    and "ball_x (fst (reset_double serving_to (b, rd))) = of_int WIDTH / 2"
    and "ball_y (fst (reset_double serving_to (b, rd))) = of_int HEIGHT / 2"
    and "ball_speed (fst (reset_double serving_to (b, rd))) = BALL_SPEED"
proof -
  define a where "a = uniform_seq rd (uniform_calls rd)"
  have "- pi / 6 \<le> a" "a \<le> pi / 6" using assms unfolding valid_random_def a_def by blast+
  then have a: "\<bar>a\<bar> \<le> pi / 6" by (simp add: abs_le_iff)
  have "0 < cos a" using a pi_gt_zero by (intro cos_pos_of_abs) linarith
  then have c: "0 < binary64 (cos a)" by (rule binary64_pos)
  have l: "ball_vx (fst (reset_double (Some ''left'') (b, rd))) = binary64 (- (5 * binary64 (cos a)))"
    by (simp add: reset_double_def Let_def BALL_SPEED_def a_def)
  have r: "ball_vx (fst (reset_double (Some ''right'') (b, rd))) = binary64 (5 * binary64 (cos a))"
    by (simp add: reset_double_def Let_def BALL_SPEED_def a_def)
  have "- (5 * binary64 (cos a)) < 0" using c by simp
  then show "ball_vx (fst (reset_double (Some ''left'') (b, rd))) < 0"
    unfolding l by (rule binary64_neg)
  have "0 < 5 * binary64 (cos a)" using c by simp
  then show "ball_vx (fst (reset_double (Some ''right'') (b, rd))) > 0"
    unfolding r by (rule binary64_pos)
  show "ball_x (fst (reset_double serving_to (b, rd))) = of_int WIDTH / 2"
    by (simp add: reset_double_def Let_def split: prod.splits)
  show "ball_y (fst (reset_double serving_to (b, rd))) = of_int HEIGHT / 2"
    by (simp add: reset_double_def Let_def split: prod.splits)
  show "ball_speed (fst (reset_double serving_to (b, rd))) = BALL_SPEED"
    by (simp add: reset_double_def Let_def split: prod.splits)
qed

subsection \<open>The serve\<close>




section \<open>Rebound\<close>

lemma hypot_nonneg [simp]: "0 \<le> hypot a b"
  by (simp add: hypot_def)

lemma hypot_neg2 [simp]: "hypot a (- b) = hypot a b"
  by (simp add: hypot_def)

lemma hypot_polar: "0 \<le> s \<Longrightarrow> hypot (\<bar>s * cos a\<bar>) (s * sin a) = s"
proof -
  assume s: "0 \<le> s"
  have "(\<bar>s * cos a\<bar>)\<^sup>2 + (s * sin a)\<^sup>2 = s\<^sup>2 * (cos a)\<^sup>2 + s\<^sup>2 * (sin a)\<^sup>2"
    by (simp add: power_mult_distrib)
  also have "\<dots> = s\<^sup>2 * ((cos a)\<^sup>2 + (sin a)\<^sup>2)"
    by (simp only: distrib_left)
  also have "\<dots> = s\<^sup>2" by simp
  finally show ?thesis using s by (simp add: hypot_def)
qed

lemma hypot_polar_neg: "0 \<le> s \<Longrightarrow> hypot (- \<bar>s * cos a\<bar>) (s * sin a) = s"
  using hypot_polar [of s a] by (simp add: hypot_def)

text \<open>The speed a rebound assigns.\<close>

lemma rebound_speed_pos: "0 < min BALL_MAX_SPEED (hypot vx vy + BALL_SPEED_INC)"
proof -
  have "0 \<le> hypot vx vy" by simp
  then have "0 < hypot vx vy + 1 / 2" by linarith
  then show ?thesis by (simp add: BALL_MAX_SPEED_def BALL_SPEED_INC_def)
qed

lemma bounce_angle_bound: "\<bar>max (- 1) (min 1 rel) * (pi / 4)\<bar> \<le> pi / 4"
proof -
  have "\<bar>max (- 1) (min 1 rel)\<bar> \<le> (1::real)" by (simp add: abs_le_iff)
  then have "\<bar>max (- 1) (min 1 rel)\<bar> * (pi / 4) \<le> 1 * (pi / 4)"
    by (intro mult_right_mono) simp_all
  then show ?thesis by (simp add: abs_mult)
qed

lemma reflect_Some_iff:
  "reflect_ball_from_paddle b p l = Some b' \<longleftrightarrow>
     rect_height (paddle_rect p) \<noteq> 0 \<and>
     b' = b\<lparr>ball_vx :=
            (if l then \<bar>min BALL_MAX_SPEED (hypot (ball_vx b) (ball_vy b) + BALL_SPEED_INC)
                        * cos (max (- 1) (min 1 ((ball_y b - (of_int (rect_top (paddle_rect p))
                             + of_int (rect_height (paddle_rect p)) / 2))
                            / (of_int (rect_height (paddle_rect p)) / 2))) * (pi / 4))\<bar>
             else - \<bar>min BALL_MAX_SPEED (hypot (ball_vx b) (ball_vy b) + BALL_SPEED_INC)
                        * cos (max (- 1) (min 1 ((ball_y b - (of_int (rect_top (paddle_rect p))
                             + of_int (rect_height (paddle_rect p)) / 2))
                            / (of_int (rect_height (paddle_rect p)) / 2))) * (pi / 4))\<bar>),
           ball_vy := min BALL_MAX_SPEED (hypot (ball_vx b) (ball_vy b) + BALL_SPEED_INC)
                        * sin (max (- 1) (min 1 ((ball_y b - (of_int (rect_top (paddle_rect p))
                             + of_int (rect_height (paddle_rect p)) / 2))
                            / (of_int (rect_height (paddle_rect p)) / 2))) * (pi / 4)),
           ball_speed := min BALL_MAX_SPEED (hypot (ball_vx b) (ball_vy b) + BALL_SPEED_INC)\<rparr>"
  by (auto simp: reflect_ball_from_paddle_def Let_def)

text \<open>
  Claim C3. A rebound that returns stores \<open>min(BALL_MAX_SPEED, hypot(vx, vy) + BALL_SPEED_INC)\<close>
  as the ball's speed, the new velocity has exactly that magnitude, the new speed is at
  most \<open>BALL_MAX_SPEED\<close>, and when the speed before was at most \<open>BALL_MAX_SPEED\<close> the new
  speed is not smaller than it. The wall test of the loop leaves both \<open>hypot(vx, vy)\<close>
  and the cached speed as they were.
\<close>

theorem rebound_speed:
  "(reflect_ball_from_paddle b p is_left = Some b' \<longrightarrow>
      ball_speed b' = min BALL_MAX_SPEED (hypot (ball_vx b) (ball_vy b) + BALL_SPEED_INC)
    \<and> hypot (ball_vx b') (ball_vy b') = ball_speed b'
    \<and> ball_speed b' \<le> BALL_MAX_SPEED
    \<and> (hypot (ball_vx b) (ball_vy b) \<le> BALL_MAX_SPEED \<longrightarrow>
         hypot (ball_vx b) (ball_vy b) \<le> ball_speed b'))
   \<and> hypot (ball_vx (wall_collision b)) (ball_vy (wall_collision b))
       = hypot (ball_vx b) (ball_vy b)
   \<and> ball_speed (wall_collision b) = ball_speed b"
proof -
  let ?s = "min BALL_MAX_SPEED (hypot (ball_vx b) (ball_vy b) + BALL_SPEED_INC)"
  have s: "0 \<le> ?s" using rebound_speed_pos [of "ball_vx b" "ball_vy b"] by simp
  have inc: "hypot (ball_vx b) (ball_vy b) \<le> BALL_MAX_SPEED \<Longrightarrow>
             hypot (ball_vx b) (ball_vy b) \<le> ?s"
    by (simp add: BALL_SPEED_INC_def)
  have wall: "hypot (ball_vx (wall_collision b)) (ball_vy (wall_collision b))
                = hypot (ball_vx b) (ball_vy b)
              \<and> ball_speed (wall_collision b) = ball_speed b"
    by (simp add: wall_collision_def)
  show ?thesis
    using wall inc hypot_polar [OF s] hypot_polar_neg [OF s]
    by (auto simp: reflect_Some_iff)
qed

lemma reflect_center: "reflect_ball_from_paddle ball_in paddleL True = Some ball_out"
  by (simp add: reflect_ball_from_paddle_def ball_in_def ball_out_def paddleL_def hypot_def
      config_defs Let_def)

theorem rebound_speed_witness:
  "reflect_ball_from_paddle ball_in paddleL True = Some ball_out
   \<and> hypot (ball_vx ball_in) (ball_vy ball_in) \<le> BALL_MAX_SPEED
   \<and> ball_speed ball_out = 11 / 2
   \<and> hypot (ball_vx ball_in) (ball_vy ball_in) \<le> ball_speed ball_out"
proof -
  have h: "hypot (ball_vx ball_in) (ball_vy ball_in) \<le> BALL_MAX_SPEED"
    by (simp add: ball_in_def hypot_def BALL_MAX_SPEED_def)
  show ?thesis
    using reflect_center h rebound_speed [of ball_in paddleL True ball_out]
    by (simp add: ball_out_def)
qed

text \<open>
  Claim C4. After a rebound that returns, \<open>vx > 0\<close> for the left paddle and \<open>vx < 0\<close> for
  the right paddle, whatever the incoming velocity, and \<open>|vy| \<le> |vx|\<close>: the direction is
  within 45 degrees of the horizontal axis.
\<close>

theorem rebound_direction:
  assumes "reflect_ball_from_paddle b p is_left = Some b'"
  shows "(is_left \<longrightarrow> ball_vx b' > 0) \<and> (\<not> is_left \<longrightarrow> ball_vx b' < 0)
       \<and> \<bar>ball_vy b'\<bar> \<le> \<bar>ball_vx b'\<bar>"
proof -
  define s where "s = min BALL_MAX_SPEED (hypot (ball_vx b) (ball_vy b) + BALL_SPEED_INC)"
  define a where "a = max (- 1) (min 1 ((ball_y b - (of_int (rect_top (paddle_rect p))
                             + of_int (rect_height (paddle_rect p)) / 2))
                            / (of_int (rect_height (paddle_rect p)) / 2))) * (pi / 4)"
  have s: "0 < s" unfolding s_def by (rule rebound_speed_pos)
  have a: "\<bar>a\<bar> \<le> pi / 4" unfolding a_def by (rule bounce_angle_bound)
  have ca: "0 < cos a" using a pi_gt_zero by (intro cos_pos_of_abs) linarith
  have "\<bar>sin a\<bar> \<le> tan (pi / 4) * cos a"
    using a pi_gt_zero by (intro abs_sin_le_tan_cos) auto
  then have sc: "\<bar>sin a\<bar> \<le> cos a" by (simp add: tan_45)
  have pos: "0 < s * cos a" using s ca by (rule mult_pos_pos)
  have "\<bar>s * sin a\<bar> = s * \<bar>sin a\<bar>" using s by (simp add: abs_mult)
  also have "\<dots> \<le> s * cos a" using s sc by (simp add: mult_left_mono)
  finally have le: "\<bar>s * sin a\<bar> \<le> \<bar>s * cos a\<bar>" using pos by simp
  from assms have b': "ball_vx b' = (if is_left then \<bar>s * cos a\<bar> else - \<bar>s * cos a\<bar>)"
    "ball_vy b' = s * sin a"
    unfolding s_def a_def by (simp_all add: reflect_Some_iff)
  show ?thesis using pos le unfolding b' by auto
qed

theorem rebound_direction_witness:
  "reflect_ball_from_paddle ball_in paddleL True = Some ball_out
   \<and> ball_vx ball_in < 0 \<and> ball_vx ball_out > 0 \<and> \<bar>ball_vy ball_out\<bar> \<le> \<bar>ball_vx ball_out\<bar>"
  using reflect_center rebound_direction [OF reflect_center]
  by (simp add: ball_in_def ball_out_def)

section \<open>Input handling and the pause check\<close>

lemmas state_defs = game0_def game1_def paused0_def ball0_def paddleL_def paddleR_def rd0_def idle_def

lemmas step_defs = tick_def handle_input_def handle_events_def handle_keys_def key_up_def
  key_down_def physics_def move_and_collide_def ai_step_def ai_diff_def update_def
  wall_collision_def left_paddle_collision_def right_paddle_collision_def
  circle_rect_collision_def rect_right_def rect_bottom_def score_check_def c_int_def

lemma handle_event_right_paddle [simp]:
  "right_paddle (handle_event g e) = right_paddle g"
  by (induction g e rule: handle_event.induct) (simp_all add: Let_def case_prod_beta)

lemma handle_events_right_paddle [simp]:
  "right_paddle (handle_events es g) = right_paddle g"
  unfolding handle_events_def by (induction es arbitrary: g) simp_all

text \<open>Without the reset key, events leave ball, scores and generator alone.\<close>

lemma handle_event_no_reset:
  assumes "e \<noteq> KEYDOWN K_r"
  shows "ball (handle_event g e) = ball g \<and> left_score (handle_event g e) = left_score g
       \<and> right_score (handle_event g e) = right_score g \<and> rnd (handle_event g e) = rnd g"
  using assms by (induction g e rule: handle_event.induct) simp_all

lemma handle_events_no_reset:
  assumes "KEYDOWN K_r \<notin> set es"
  shows "ball (handle_events es g) = ball g \<and> left_score (handle_events es g) = left_score g
       \<and> right_score (handle_events es g) = right_score g \<and> rnd (handle_events es g) = rnd g"
  using assms unfolding handle_events_def
proof (induction es arbitrary: g)
  case Nil
  then show ?case by simp
next
  case (Cons e es)
  then have e: "e \<noteq> KEYDOWN K_r" by auto
  show ?case using Cons handle_event_no_reset [OF e, of g] by simp
qed

text \<open>Without the pause key and the reset key, they leave the pause flag alone too.\<close>

lemma handle_event_paused:
  assumes "e \<noteq> KEYDOWN K_SPACE" and "e \<noteq> KEYDOWN K_r"
  shows "paused (handle_event g e) = paused g"
  using assms by (induction g e rule: handle_event.induct) simp_all

lemma handle_events_paused:
  assumes "KEYDOWN K_SPACE \<notin> set es" and "KEYDOWN K_r \<notin> set es"
  shows "paused (handle_events es g) = paused g"
  using assms unfolding handle_events_def
proof (induction es arbitrary: g)
  case Nil
  then show ?case by simp
next
  case (Cons e es)
  then have e: "e \<noteq> KEYDOWN K_SPACE" "e \<noteq> KEYDOWN K_r" by auto
  show ?case using Cons handle_event_paused [OF e, of g] by simp
qed

text \<open>The held keys touch the left paddle only.\<close>

lemma handle_keys_frame:
  assumes "handle_keys st inp g = Some g1"
  shows "g1 = g\<lparr>left_paddle := left_paddle g1\<rparr>"
  using assms
  by (auto simp: handle_keys_def key_up_def key_down_def split: option.splits if_splits)

lemma handle_input_frame:
  assumes "handle_input st inp g = Some g1"
  shows "g1 = (handle_events (events inp) g)\<lparr>left_paddle := left_paddle g1\<rparr>"
  using assms handle_keys_frame unfolding handle_input_def by blast

lemma handle_input_fields:
  assumes "handle_input st inp g = Some g1"
  shows "right_paddle g1 = right_paddle g"
    "ball g1 = ball (handle_events (events inp) g)"
    "left_score g1 = left_score (handle_events (events inp) g)"
    "right_score g1 = right_score (handle_events (events inp) g)"
    "paused g1 = paused (handle_events (events inp) g)"
    "rnd g1 = rnd (handle_events (events inp) g)"
    "running g1 = running (handle_events (events inp) g)"
proof -
  note f = handle_input_frame [OF assms]
  show "right_paddle g1 = right_paddle g" by (subst f) simp
  show "ball g1 = ball (handle_events (events inp) g)" by (subst f) simp
  show "left_score g1 = left_score (handle_events (events inp) g)" by (subst f) simp
  show "right_score g1 = right_score (handle_events (events inp) g)" by (subst f) simp
  show "paused g1 = paused (handle_events (events inp) g)" by (subst f) simp
  show "rnd g1 = rnd (handle_events (events inp) g)" by (subst f) simp
  show "running g1 = running (handle_events (events inp) g)" by (subst f) simp
qed

lemma handle_input_no_reset:
  assumes "handle_input st inp g = Some g1" and "KEYDOWN K_r \<notin> set (events inp)"
  shows "ball g1 = ball g" "left_score g1 = left_score g" "right_score g1 = right_score g"
    "rnd g1 = rnd g"
  using handle_input_fields [OF assms(1)] handle_events_no_reset [OF assms(2), of g]
  by simp_all

lemma handle_input_quiet:
  assumes "handle_input st inp g = Some g1" and "quiet inp"
  shows "ball g1 = ball g" "left_score g1 = left_score g" "right_score g1 = right_score g"
    "rnd g1 = rnd g" "paused g1 = paused g"
proof -
  have k: "KEYDOWN K_SPACE \<notin> set (events inp)" "KEYDOWN K_r \<notin> set (events inp)"
    using assms(2) by (simp_all add: quiet_def)
  show "ball g1 = ball g" "left_score g1 = left_score g" "right_score g1 = right_score g"
    "rnd g1 = rnd g"
    using handle_input_no_reset [OF assms(1) k(2)] by simp_all
  show "paused g1 = paused g"
    using handle_input_fields(5) [OF assms(1)] handle_events_paused [OF k, of g] by simp
qed

lemma tick_paused:
  "handle_input st inp g = Some g1 \<Longrightarrow> paused g1 \<Longrightarrow> tick st inp g = Some g1"
  by (simp add: tick_def)

lemma tick_running:
  "handle_input st inp g = Some g1 \<Longrightarrow> \<not> paused g1 \<Longrightarrow> tick st inp g = physics st g1"
  by (simp add: tick_def)

lemma tick_Some:
  "tick st inp g = Some g' \<Longrightarrow> \<exists>g1. handle_input st inp g = Some g1"
  by (auto simp: tick_def split: option.splits)

subsection \<open>The left paddle under input\<close>

text \<open>The left paddle as \<open>main\<close> builds and keeps it, inside the field.\<close>

lemma key_move_within:
  assumes "store_ok st" and "rect_height (paddle_rect p) = PADDLE_H" and "within_field p"
    and "paddle_speed p = PLAYER_SPEED" and "d = paddle_speed p \<or> d = - paddle_speed p"
  shows "\<exists>p'. move_by st (of_int d) p = Some p' \<and> rect_height (paddle_rect p') = PADDLE_H
           \<and> within_field p' \<and> paddle_speed p' = PLAYER_SPEED"
proof -
  have "\<bar>real_of_int d\<bar> \<le> of_int (INT_MAX - HEIGHT)"
    using assms(4,5) by (auto simp: PLAYER_SPEED_def INT_MAX_def HEIGHT_def)
  from move_by_within [OF assms(1,2,3) this] obtain p'
    where p': "move_by st (of_int d) p = Some p'" "within_field p'" by blast
  then show ?thesis using move_by_frame(1,4) [OF p'(1)] assms(2,4) by simp
qed

lemma handle_events_left_within:
  assumes "rect_height (paddle_rect (left_paddle g)) = PADDLE_H"
    and "within_field (left_paddle g)" and "paddle_speed (left_paddle g) = PLAYER_SPEED"
  shows "rect_height (paddle_rect (left_paddle (handle_events es g))) = PADDLE_H
       \<and> within_field (left_paddle (handle_events es g))
       \<and> paddle_speed (left_paddle (handle_events es g)) = PLAYER_SPEED"
proof -
  have ev: "rect_height (paddle_rect (left_paddle (handle_event g e))) = PADDLE_H
          \<and> within_field (left_paddle (handle_event g e))
          \<and> paddle_speed (left_paddle (handle_event g e)) = PLAYER_SPEED"
    if "rect_height (paddle_rect (left_paddle g)) = PADDLE_H" "within_field (left_paddle g)"
      "paddle_speed (left_paddle g) = PLAYER_SPEED"
    for g e
    using that
    by (induction g e rule: handle_event.induct)
       (simp_all add: move_to_within Let_def case_prod_beta)
  show ?thesis
    unfolding handle_events_def using assms
  proof (induction es arbitrary: g)
    case Nil
    then show ?case by simp
  next
    case (Cons e es)
    then show ?case using ev [of g e] by simp
  qed
qed

lemma handle_input_left_within:
  assumes "store_ok st" and "rect_height (paddle_rect (left_paddle g)) = PADDLE_H"
    and "within_field (left_paddle g)" and "paddle_speed (left_paddle g) = PLAYER_SPEED"
  shows "\<exists>g1. handle_input st inp g = Some g1
       \<and> rect_height (paddle_rect (left_paddle g1)) = PADDLE_H
       \<and> within_field (left_paddle g1) \<and> paddle_speed (left_paddle g1) = PLAYER_SPEED"
proof -
  let ?g0 = "handle_events (events inp) g"
  note e = handle_events_left_within [OF assms(2,3,4), of "events inp"]
  have up: "\<exists>ga. key_up st inp ?g0 = Some ga
       \<and> rect_height (paddle_rect (left_paddle ga)) = PADDLE_H
       \<and> within_field (left_paddle ga) \<and> paddle_speed (left_paddle ga) = PLAYER_SPEED"
  proof (cases "up_pressed inp")
    case True
    from key_move_within [OF assms(1), of "left_paddle ?g0" "- paddle_speed (left_paddle ?g0)"] e
    obtain p' where "move_by st (of_int (- paddle_speed (left_paddle ?g0))) (left_paddle ?g0) = Some p'"
      "rect_height (paddle_rect p') = PADDLE_H" "within_field p'" "paddle_speed p' = PLAYER_SPEED"
      by blast
    then show ?thesis using True by (simp add: key_up_def)
  next
    case False
    then show ?thesis using e by (simp add: key_up_def)
  qed
  then obtain ga where ga: "key_up st inp ?g0 = Some ga"
    "rect_height (paddle_rect (left_paddle ga)) = PADDLE_H"
    "within_field (left_paddle ga)" "paddle_speed (left_paddle ga) = PLAYER_SPEED" by blast
  have down: "\<exists>gb. key_down st inp ga = Some gb
       \<and> rect_height (paddle_rect (left_paddle gb)) = PADDLE_H
       \<and> within_field (left_paddle gb) \<and> paddle_speed (left_paddle gb) = PLAYER_SPEED"
  proof (cases "down_pressed inp")
    case True
    from key_move_within [OF assms(1) ga(2,3,4), of "paddle_speed (left_paddle ga)"]
    obtain p' where "move_by st (of_int (paddle_speed (left_paddle ga))) (left_paddle ga) = Some p'"
      "rect_height (paddle_rect p') = PADDLE_H" "within_field p'" "paddle_speed p' = PLAYER_SPEED"
      by blast
    then show ?thesis using True by (simp add: key_down_def)
  next
    case False
    then show ?thesis using ga by (simp add: key_down_def)
  qed
  then show ?thesis using ga(1) by (simp add: handle_input_def handle_keys_def)
qed

section \<open>Pause\<close>

lemma main_loop_paused:
  assumes "paused g" and "\<forall>inp \<in> set inps. quiet inp" and "main_loop st inps g = Some g'"
  shows "ball g' = ball g \<and> left_score g' = left_score g \<and> right_score g' = right_score g
       \<and> right_paddle g' = right_paddle g \<and> paused g'"
  using assms
proof (induction inps arbitrary: g)
  case Nil
  then show ?case by simp
next
  case (Cons inp inps)
  show ?case
  proof (cases "running g")
    case True
    then obtain g1 where t: "tick st inp g = Some g1" and m: "main_loop st inps g1 = Some g'"
      using Cons.prems(3) by (auto split: option.splits)
    from tick_Some [OF t] obtain h where h: "handle_input st inp g = Some h" by blast
    have q: "quiet inp" using Cons.prems(2) by simp
    have ph: "paused h" using handle_input_quiet(5) [OF h q] Cons.prems(1) by simp
    have "g1 = h" using t tick_paused [OF h ph] by simp
    then have g1: "ball g1 = ball g" "left_score g1 = left_score g"
      "right_score g1 = right_score g" "right_paddle g1 = right_paddle g" "paused g1"
      using handle_input_quiet [OF h q] handle_input_fields(1) [OF h] ph by simp_all
    have "\<forall>inp \<in> set inps. quiet inp" using Cons.prems(2) by simp
    from Cons.IH [OF g1(5) this m] show ?thesis using g1 by simp
  next
    case False
    then show ?thesis using Cons.prems by simp
  qed
qed

text \<open>With a left paddle as \<open>main\<close> keeps it, the paused loop returns.\<close>

lemma main_loop_paused_total:
  assumes "store_ok st" and "paused g" and "\<forall>inp \<in> set inps. quiet inp"
    and "rect_height (paddle_rect (left_paddle g)) = PADDLE_H"
    and "within_field (left_paddle g)" and "paddle_speed (left_paddle g) = PLAYER_SPEED"
  shows "\<exists>g'. main_loop st inps g = Some g'"
  using assms(2-)
proof (induction inps arbitrary: g)
  case Nil
  then show ?case by simp
next
  case (Cons inp inps)
  from handle_input_left_within [OF assms(1) Cons.prems(3,4,5), of inp] obtain h
    where h: "handle_input st inp g = Some h"
      "rect_height (paddle_rect (left_paddle h)) = PADDLE_H"
      "within_field (left_paddle h)" "paddle_speed (left_paddle h) = PLAYER_SPEED" by blast
  have q: "quiet inp" using Cons.prems(2) by simp
  have ph: "paused h" using handle_input_quiet(5) [OF h(1) q] Cons.prems(1) by simp
  have t: "tick st inp g = Some h" using h(1) ph by (rule tick_paused)
  have "\<forall>inp \<in> set inps. quiet inp" using Cons.prems(2) by simp
  from Cons.IH [OF ph this h(2,3,4)] show ?case using t by simp
qed

lemma handle_keys_events [simp]:
  "handle_keys st (inp\<lparr>events := es\<rparr>) g = handle_keys st inp g"
proof -
  have "key_up st (inp\<lparr>events := es\<rparr>) h = key_up st inp h"
    "key_down st (inp\<lparr>events := es\<rparr>) h = key_down st inp h" for h
    by (simp_all add: key_up_def key_down_def)
  then show ?thesis by (simp add: handle_keys_def split: option.splits)
qed

lemma toggle_resumes:
  "paused g \<Longrightarrow>
   tick st (inp\<lparr>events := [KEYDOWN K_SPACE]\<rparr>) g
     = (case handle_keys st inp (g\<lparr>paused := False\<rparr>) of
          None \<Rightarrow> None
        | Some g1 \<Rightarrow> if paused g1 then Some g1 else physics st g1)"
  by (simp add: tick_def handle_input_def handle_events_def)

lemma tick_game0: "tick c_cast idle game0 = Some game1"
  by (simp add: state_defs step_defs config_defs Let_def)

lemma handle_input_idle [simp]: "handle_input st idle g = Some g"
  by (simp add: handle_input_def handle_events_def handle_keys_def key_up_def key_down_def
      idle_def)

lemma reset_then_pause: "handle_input c_cast reset_then_pause paused_23 = Some paused_00"
  by (simp add: handle_input_def handle_events_def handle_keys_def key_up_def key_down_def
      reset_then_pause_def paused_23_def paused_00_def game1_def game0_def rd0_def ball0_def
      reset_def config_defs Let_def)

text \<open>
  A paused game at 2 : 3 receives the reset key and then the pause key in one tick. The
  pause flag is set before the tick, at the pause check and after the tick, and yet
  both scores are zeroed and the ball is back at the centre.
\<close>

theorem pause_freezes_counterexample:
  "paused paused_23
   \<and> handle_input c_cast reset_then_pause paused_23 = Some paused_00
   \<and> tick c_cast reset_then_pause paused_23 = Some paused_00
   \<and> paused paused_00
   \<and> left_score paused_23 = 2 \<and> left_score paused_00 = 0
   \<and> right_score paused_23 = 3 \<and> right_score paused_00 = 0
   \<and> ball_x (ball paused_23) = 405 \<and> ball_x (ball paused_00) = 400"
proof -
  have p: "paused paused_00" by (simp add: paused_00_def)
  have t: "tick c_cast reset_then_pause paused_23 = Some paused_00"
    using reset_then_pause p by (rule tick_paused)
  show ?thesis using reset_then_pause t
    by (simp add: paused_23_def paused_00_def game1_def game0_def ball0_def)
qed

text \<open>
  Claim C7, as the code has it. A tick whose pause flag is set at the pause check
  (line 162) ends right after input handling: ball advance, wall and paddle collision,
  AI motion and scoring are all skipped, so the right paddle is as before the tick and,
  unless the tick handled a reset key (which zeroes the scores, re-serves the ball and
  clears the flag), so are the ball's position and velocity and both scores. Hence any
  number of ticks from a paused state whose snapshots carry neither the pause key nor
  the reset key leaves ball, scores and right paddle unchanged and the game paused; and
  with a left paddle as \<open>main\<close> keeps it that loop returns. A tick that toggles pause off
  handles the held keys and then runs the physics step.
\<close>

theorem pause_freezes:
  "(handle_input st inp g = Some g1 \<and> paused g1 \<longrightarrow>
      tick st inp g = Some g1 \<and> right_paddle g1 = right_paddle g
      \<and> (KEYDOWN K_r \<notin> set (events inp) \<longrightarrow>
           ball g1 = ball g \<and> left_score g1 = left_score g \<and> right_score g1 = right_score g))
   \<and> (paused g \<and> (\<forall>inp \<in> set inps. quiet inp) \<and> main_loop st inps g = Some g' \<longrightarrow>
        ball g' = ball g \<and> left_score g' = left_score g \<and> right_score g' = right_score g
        \<and> right_paddle g' = right_paddle g \<and> paused g')
   \<and> (store_ok st \<and> paused g \<and> (\<forall>inp \<in> set inps. quiet inp)
        \<and> rect_height (paddle_rect (left_paddle g)) = PADDLE_H
        \<and> within_field (left_paddle g) \<and> paddle_speed (left_paddle g) = PLAYER_SPEED \<longrightarrow>
        (\<exists>g'. main_loop st inps g = Some g'))
   \<and> (paused g \<and> handle_keys st inp (g\<lparr>paused := False\<rparr>) = Some g2 \<longrightarrow>
        \<not> paused g2
        \<and> tick st (inp\<lparr>events := [KEYDOWN K_SPACE]\<rparr>) g = physics st g2)"
proof -
  have a: "tick st inp g = Some g1 \<and> right_paddle g1 = right_paddle g
      \<and> (KEYDOWN K_r \<notin> set (events inp) \<longrightarrow>
           ball g1 = ball g \<and> left_score g1 = left_score g \<and> right_score g1 = right_score g)"
    if h: "handle_input st inp g = Some g1" and p: "paused g1"
    using tick_paused [OF h p] handle_input_fields(1) [OF h] handle_input_no_reset [OF h]
    by simp
  have d: "\<not> paused g2 \<and> tick st (inp\<lparr>events := [KEYDOWN K_SPACE]\<rparr>) g = physics st g2"
    if p: "paused g" and k: "handle_keys st inp (g\<lparr>paused := False\<rparr>) = Some g2"
  proof -
    have "g2 = (g\<lparr>paused := False\<rparr>)\<lparr>left_paddle := left_paddle g2\<rparr>"
      using k by (rule handle_keys_frame)
    then have "paused g2 = False" by (metis game.select_convs(7) game.surjective
          game.update_convs(1) game.update_convs(7))
    then show ?thesis using toggle_resumes [OF p, of st inp] k by simp
  qed
  show ?thesis
    using a d main_loop_paused [of g inps st g'] main_loop_paused_total [of st g inps]
    by blast
qed

theorem pause_freezes_witness:
  "paused paused0 \<and> quiet idle \<and> store_ok c_cast
   \<and> rect_height (paddle_rect (left_paddle paused0)) = PADDLE_H
   \<and> within_field (left_paddle paused0) \<and> paddle_speed (left_paddle paused0) = PLAYER_SPEED
   \<and> handle_input c_cast idle paused0 = Some paused0
   \<and> KEYDOWN K_r \<notin> set (events idle)
   \<and> tick c_cast idle paused0 = Some paused0
   \<and> main_loop c_cast [idle, idle, idle] paused0 = Some paused0
   \<and> ball_x (ball paused0) = 400
   \<and> handle_keys c_cast idle (paused0\<lparr>paused := False\<rparr>) = Some game0
   \<and> tick c_cast (idle\<lparr>events := [KEYDOWN K_SPACE]\<rparr>) paused0 = Some game1
   \<and> ball_x (ball game1) = 405"
proof -
  note pf = pause_freezes [of c_cast idle paused0 paused0 "[idle, idle, idle]" paused0 game0]
  have p: "paused paused0" by (simp add: paused0_def)
  have q: "quiet idle" by (simp add: quiet_def idle_def)
  have lh: "rect_height (paddle_rect (left_paddle paused0)) = PADDLE_H"
    by (simp add: paused0_def game0_def paddleL_def PADDLE_H_def)
  have lw: "within_field (left_paddle paused0)"
    by (simp add: paused0_def game0_def paddleL_def within_field_def HEIGHT_def)
  have ls: "paddle_speed (left_paddle paused0) = PLAYER_SPEED"
    by (simp add: paused0_def game0_def paddleL_def PLAYER_SPEED_def)
  have i: "handle_input c_cast idle paused0 = Some paused0" by simp
  have k: "KEYDOWN K_r \<notin> set (events idle)" by (simp add: idle_def)
  have t: "tick c_cast idle paused0 = Some paused0" using pf i p by blast
  have m: "main_loop c_cast [idle, idle, idle] paused0 = Some paused0"
    using t by (simp add: paused0_def game0_def)
  have bx: "ball_x (ball paused0) = 400" by (simp add: paused0_def game0_def ball0_def)
  have hk: "handle_keys c_cast idle (paused0\<lparr>paused := False\<rparr>) = Some game0"
    by (simp add: handle_keys_def key_up_def key_down_def idle_def paused0_def game0_def)
  have "physics c_cast game0 = Some game1"
    using tick_game0 by (simp add: tick_def game0_def)
  moreover have "tick c_cast (idle\<lparr>events := [KEYDOWN K_SPACE]\<rparr>) paused0 = physics c_cast game0"
    using pf p hk by blast
  ultimately have r: "tick c_cast (idle\<lparr>events := [KEYDOWN K_SPACE]\<rparr>) paused0 = Some game1"
    by simp
  have bx1: "ball_x (ball game1) = 405" by (simp add: game1_def ball0_def)
  show ?thesis by (intro conjI p q c_cast_ok lh lw ls i k t m bx hk r bx1)
qed

section \<open>Input while paused\<close>

lemma physics_left_paddle:
  "physics st g = Some g' \<Longrightarrow> left_paddle g' = left_paddle g"
  by (auto simp: physics_def move_and_collide_def ai_step_def score_check_def Let_def
      case_prod_beta split: option.splits if_splits)

text \<open>Whatever the pause flag, the left paddle after a tick is the one input handling left.\<close>

lemma tick_left_paddle:
  "handle_input st inp g = Some g1 \<Longrightarrow> tick st inp g = Some g' \<Longrightarrow>
   left_paddle g' = left_paddle g1"
  by (auto simp: tick_def physics_left_paddle split: if_splits)

lemma key_move_top:
  assumes "store_ok st" and "rect_height (paddle_rect p) = PADDLE_H" and "within_field p"
    and "\<bar>d\<bar> \<le> 7" and "move_by st (of_int d) p = Some p'"
  shows "rect_top (paddle_rect p') = max 0 (min (HEIGHT - PADDLE_H) (rect_top (paddle_rect p) + d))"
proof -
  define t where "t = rect_top (paddle_rect p)"
  have t: "0 \<le> t" "t \<le> 400"
    using assms(2,3) by (simp_all add: within_field_def t_def config_defs)
  have "st (of_int (t + d)) = Some (t + d)"
    using assms(1) t assms(4) by (intro store_ok_int) (simp_all add: INT_MIN_def INT_MAX_def)
  then have s: "st (of_int (rect_top (paddle_rect p)) + of_int d) = Some (t + d)"
    by (simp add: t_def)
  have "INT_MIN \<le> t + d" "t + d \<le> INT_MAX - PADDLE_H"
    using t assms(4) by (simp_all add: INT_MIN_def INT_MAX_def PADDLE_H_def)
  from move_by_top [of p st "of_int d" "t + d", OF assms(2) s this] assms(5)
  show ?thesis by (simp add: t_def)
qed

text \<open>
  Claim C10. Take a tick whose pause flag is set at the pause check. The tick ends with
  the state input handling produced: the right paddle is untouched, and so are ball and
  scores unless the reset key was handled. The left paddle has followed the input: a
  mouse-motion event puts it where \<open>move_to\<close> does (for the standard height, its top at
  \<open>clamp(my, 50, 450) - 50\<close>), a held Up or Down key where \<open>move_by\<close> by the paddle's
  speed does. For a left paddle as \<open>main\<close> keeps it, it stays inside the field, and the
  Up key takes its top to \<open>max(0, top - 7)\<close>, the Down key to \<open>min(400, top + 7)\<close>.
\<close>

theorem paused_input_moves_left_paddle:
  assumes "handle_input st inp g = Some g1" and "paused g1"
  shows "tick st inp g = Some g1
       \<and> right_paddle g1 = right_paddle g
       \<and> (KEYDOWN K_r \<notin> set (events inp) \<longrightarrow>
            ball g1 = ball g \<and> left_score g1 = left_score g \<and> right_score g1 = right_score g)
       \<and> (events inp = [MOUSEMOTION (mx, my)] \<and> \<not> up_pressed inp \<and> \<not> down_pressed inp \<longrightarrow>
            left_paddle g1 = move_to (of_int my) (left_paddle g)
            \<and> (rect_height (paddle_rect (left_paddle g)) = PADDLE_H \<longrightarrow>
                 rect_top (paddle_rect (left_paddle g1)) = max 50 (min 450 my) - 50))
       \<and> (events inp = [] \<and> up_pressed inp \<and> \<not> down_pressed inp \<longrightarrow>
            move_by st (of_int (- paddle_speed (left_paddle g))) (left_paddle g)
              = Some (left_paddle g1))
       \<and> (events inp = [] \<and> \<not> up_pressed inp \<and> down_pressed inp \<longrightarrow>
            move_by st (of_int (paddle_speed (left_paddle g))) (left_paddle g)
              = Some (left_paddle g1))
       \<and> (store_ok st \<and> rect_height (paddle_rect (left_paddle g)) = PADDLE_H
            \<and> within_field (left_paddle g) \<and> paddle_speed (left_paddle g) = PLAYER_SPEED \<longrightarrow>
            within_field (left_paddle g1)
            \<and> (events inp = [] \<and> up_pressed inp \<and> \<not> down_pressed inp \<longrightarrow>
                 rect_top (paddle_rect (left_paddle g1))
                   = max 0 (rect_top (paddle_rect (left_paddle g)) - PLAYER_SPEED))
            \<and> (events inp = [] \<and> \<not> up_pressed inp \<and> down_pressed inp \<longrightarrow>
                 rect_top (paddle_rect (left_paddle g1))
                   = min (HEIGHT - PADDLE_H) (rect_top (paddle_rect (left_paddle g)) + PLAYER_SPEED)))"
proof -
  have a: "tick st inp g = Some g1" using assms by (rule tick_paused)
  have b: "right_paddle g1 = right_paddle g" using assms(1) by (rule handle_input_fields(1))
  have c: "KEYDOWN K_r \<notin> set (events inp) \<longrightarrow>
            ball g1 = ball g \<and> left_score g1 = left_score g \<and> right_score g1 = right_score g"
    using handle_input_no_reset [OF assms(1)] by simp
  have mouse: "left_paddle g1 = move_to (of_int my) (left_paddle g)"
    if "events inp = [MOUSEMOTION (mx, my)]" "\<not> up_pressed inp" "\<not> down_pressed inp"
    using assms(1) that
    by (auto simp: handle_input_def handle_events_def handle_keys_def key_up_def key_down_def)
  have mouse_top: "rect_top (paddle_rect (left_paddle g1)) = max 50 (min 450 my) - 50"
    if "events inp = [MOUSEMOTION (mx, my)]" "\<not> up_pressed inp" "\<not> down_pressed inp"
      "rect_height (paddle_rect (left_paddle g)) = PADDLE_H"
    using mouse [OF that(1,2,3)] move_to_top [OF that(4), of "of_int my"] by simp
  have up: "move_by st (of_int (- paddle_speed (left_paddle g))) (left_paddle g)
              = Some (left_paddle g1)"
    if "events inp = []" "up_pressed inp" "\<not> down_pressed inp"
    using assms(1) that
    by (auto simp: handle_input_def handle_events_def handle_keys_def key_up_def key_down_def
        split: option.splits)
  have down: "move_by st (of_int (paddle_speed (left_paddle g))) (left_paddle g)
              = Some (left_paddle g1)"
    if "events inp = []" "\<not> up_pressed inp" "down_pressed inp"
    using assms(1) that
    by (auto simp: handle_input_def handle_events_def handle_keys_def key_up_def key_down_def
        split: option.splits)
  have field: "within_field (left_paddle g1)
            \<and> (events inp = [] \<and> up_pressed inp \<and> \<not> down_pressed inp \<longrightarrow>
                 rect_top (paddle_rect (left_paddle g1))
                   = max 0 (rect_top (paddle_rect (left_paddle g)) - PLAYER_SPEED))
            \<and> (events inp = [] \<and> \<not> up_pressed inp \<and> down_pressed inp \<longrightarrow>
                 rect_top (paddle_rect (left_paddle g1))
                   = min (HEIGHT - PADDLE_H) (rect_top (paddle_rect (left_paddle g)) + PLAYER_SPEED))"
    if ok: "store_ok st" and h: "rect_height (paddle_rect (left_paddle g)) = PADDLE_H"
      and w: "within_field (left_paddle g)" and sp: "paddle_speed (left_paddle g) = PLAYER_SPEED"
  proof -
    have w1: "within_field (left_paddle g1)"
      using handle_input_left_within [OF ok h w sp, of inp] assms(1) by auto
    have t: "0 \<le> rect_top (paddle_rect (left_paddle g))"
      "rect_top (paddle_rect (left_paddle g)) \<le> 400"
      using h w by (simp_all add: within_field_def config_defs)
    have u: "rect_top (paddle_rect (left_paddle g1))
                   = max 0 (rect_top (paddle_rect (left_paddle g)) - PLAYER_SPEED)"
      if e: "events inp = []" "up_pressed inp" "\<not> down_pressed inp"
      using key_move_top [OF ok h w, of "- 7" "left_paddle g1"] up [OF e] sp t
      by (simp add: config_defs)
    have d: "rect_top (paddle_rect (left_paddle g1))
                   = min (HEIGHT - PADDLE_H) (rect_top (paddle_rect (left_paddle g)) + PLAYER_SPEED)"
      if e: "events inp = []" "\<not> up_pressed inp" "down_pressed inp"
      using key_move_top [OF ok h w, of 7 "left_paddle g1"] down [OF e] sp t
      by (simp add: config_defs)
    show ?thesis using w1 u d by blast
  qed
  show ?thesis using a b c mouse mouse_top up down field by blast
qed

lemma paused0_mouse: "handle_input c_cast mouse_100 paused0 = Some paused0_mouse"
  by (simp add: handle_input_def handle_events_def handle_keys_def key_up_def key_down_def
      mouse_100_def paused0_def paused0_mouse_def game0_def paddleL_def move_to_def
      set_centery_def py_int_def c_int_def config_defs)

lemma paused0_up: "handle_input c_cast up_held paused0 = Some paused0_up"
  by (simp add: handle_input_def handle_events_def handle_keys_def key_up_def key_down_def
      up_held_def paused0_def paused0_up_def game0_def paddleL_def move_by_def Let_def
      rect_bottom_def c_cast_def py_int_def c_int_def INT_MIN_def INT_MAX_def HEIGHT_def)

theorem paused_input_moves_left_paddle_witness:
  "handle_input c_cast mouse_100 paused0 = Some paused0_mouse \<and> paused paused0_mouse
   \<and> events mouse_100 = [MOUSEMOTION (300, 100)]
   \<and> \<not> up_pressed mouse_100 \<and> \<not> down_pressed mouse_100
   \<and> rect_height (paddle_rect (left_paddle paused0)) = PADDLE_H
   \<and> tick c_cast mouse_100 paused0 = Some paused0_mouse
   \<and> rect_top (paddle_rect (left_paddle paused0)) = 200
   \<and> rect_top (paddle_rect (left_paddle paused0_mouse)) = 50
   \<and> ball paused0_mouse = ball paused0
   \<and> handle_input c_cast up_held paused0 = Some paused0_up \<and> paused paused0_up
   \<and> events up_held = [] \<and> up_pressed up_held \<and> \<not> down_pressed up_held
   \<and> store_ok c_cast \<and> within_field (left_paddle paused0)
   \<and> paddle_speed (left_paddle paused0) = PLAYER_SPEED
   \<and> tick c_cast up_held paused0 = Some paused0_up
   \<and> rect_top (paddle_rect (left_paddle paused0_up)) = 193"
proof -
  have pm: "paused paused0_mouse" by (simp add: paused0_mouse_def paused0_def)
  have pu: "paused paused0_up" by (simp add: paused0_up_def paused0_def)
  have em: "events mouse_100 = [MOUSEMOTION (300, 100)]" "\<not> up_pressed mouse_100"
    "\<not> down_pressed mouse_100" by (simp_all add: mouse_100_def)
  have eu: "events up_held = []" "up_pressed up_held" "\<not> down_pressed up_held"
    by (simp_all add: up_held_def)
  have lh: "rect_height (paddle_rect (left_paddle paused0)) = PADDLE_H"
    by (simp add: paused0_def game0_def paddleL_def PADDLE_H_def)
  have lw: "within_field (left_paddle paused0)"
    by (simp add: paused0_def game0_def paddleL_def within_field_def HEIGHT_def)
  have ls: "paddle_speed (left_paddle paused0) = PLAYER_SPEED"
    by (simp add: paused0_def game0_def paddleL_def PLAYER_SPEED_def)
  have t0: "rect_top (paddle_rect (left_paddle paused0)) = 200"
    by (simp add: paused0_def game0_def paddleL_def)
  note m = paused_input_moves_left_paddle [OF paused0_mouse pm, of 300 100]
  note u = paused_input_moves_left_paddle [OF paused0_up pu, of 0 0]
  have tm: "tick c_cast mouse_100 paused0 = Some paused0_mouse" using m by blast
  have "rect_top (paddle_rect (left_paddle paused0_mouse)) = max 50 (min 450 100) - 50"
    using m em lh by blast
  then have t1: "rect_top (paddle_rect (left_paddle paused0_mouse)) = 50" by simp
  have "KEYDOWN K_r \<notin> set (events mouse_100)" by (simp add: mouse_100_def)
  then have bm: "ball paused0_mouse = ball paused0" using m by blast
  have tu: "tick c_cast up_held paused0 = Some paused0_up" using u by blast
  have "rect_top (paddle_rect (left_paddle paused0_up))
          = max 0 (rect_top (paddle_rect (left_paddle paused0)) - PLAYER_SPEED)"
    using u eu c_cast_ok lh lw ls by blast
  then have t2: "rect_top (paddle_rect (left_paddle paused0_up)) = 193"
    by (simp add: t0 PLAYER_SPEED_def)
  show ?thesis
    by (intro conjI paused0_mouse pm em lh tm t0 t1 bm paused0_up pu eu c_cast_ok lw ls tu t2)
qed

section \<open>The AI paddle\<close>

lemma move_by_displacement:
  assumes "store_ok st" and "within_field p" and "\<bar>m\<bar> \<le> of_int k" and "k \<le> INT_MAX - HEIGHT"
    and "move_by st m p = Some p'"
  shows "\<bar>rect_top (paddle_rect p') - rect_top (paddle_rect p)\<bar> \<le> k"
proof -
  define t where "t = rect_top (paddle_rect p)"
  define h where "h = rect_height (paddle_rect p)"
  have th: "0 \<le> t" "0 \<le> h" "t + h \<le> 500"
    using assms(2) by (simp_all add: within_field_def t_def h_def HEIGHT_def)
  have k: "0 \<le> k" "k \<le> 2147483147"
    using assms(3,4) by (simp_all add: INT_MAX_def HEIGHT_def)
  from assms(5) obtain n where n: "st (of_int t + m) = Some n"
    by (auto simp: move_by_def t_def split: option.splits)
  have m: "- of_int k \<le> m" "m \<le> of_int k" using assms(3) by (simp_all add: abs_le_iff)
  have lo: "of_int INT_MIN \<le> of_int t + m" and hi: "of_int t + m \<le> of_int INT_MAX"
    using th k m by (simp_all add: INT_MIN_def INT_MAX_def)
  have nt: "\<bar>n - t\<bar> \<le> k" using assms(1) n assms(3) lo hi by (rule store_shift)
  define t2 where "t2 = (if n < 0 then 0 else n)"
  have t2: "0 \<le> t2" "\<bar>t2 - t\<bar> \<le> k" "t2 \<le> t + k" using nt th by (auto simp: t2_def)
  have bot: "c_int (t2 + h) = t2 + h"
    using t2 th k by (intro c_int_id) (simp_all add: INT_MIN_def INT_MAX_def)
  have new: "c_int (500 - h) = 500 - h"
    using th by (intro c_int_id) (simp_all add: INT_MIN_def INT_MAX_def)
  have "rect_top (paddle_rect p') = (if t2 + h > 500 then 500 - h else t2)"
    using assms(5) n bot new
    by (auto simp: move_by_def Let_def rect_bottom_def set_bottom_def HEIGHT_def t_def h_def
        t2_def)
  then show ?thesis using t2 th by (auto simp: t_def)
qed

lemma ai_step_frame:
  assumes "ai_step st g = Some ga"
  shows "ga = g\<lparr>right_paddle := right_paddle ga\<rparr>"
  using assms by (auto simp: ai_step_def Let_def split: option.splits if_splits)

lemma move_and_collide_ai:
  assumes "move_and_collide st g = Some g2"
  shows "\<exists>ga. ai_step st g = Some ga \<and> right_paddle g2 = right_paddle ga"
  using assms by (auto simp: move_and_collide_def split: option.splits)

lemma move_and_collide_frame:
  assumes "move_and_collide st g = Some g2"
  shows "left_paddle g2 = left_paddle g"
    "left_score g2 = left_score g" "right_score g2 = right_score g"
    "paused g2 = paused g" "rnd g2 = rnd g"
proof -
  from assms obtain ga b3 where ga: "ai_step st g = Some ga" and g2: "g2 = ga\<lparr>ball := b3\<rparr>"
    by (auto simp: move_and_collide_def split: option.splits)
  note f = ai_step_frame [OF ga]
  show "left_paddle g2 = left_paddle g" unfolding g2 by (subst f) simp
  show "left_score g2 = left_score g" unfolding g2 by (subst f) simp
  show "right_score g2 = right_score g" unfolding g2 by (subst f) simp
  show "paused g2 = paused g" unfolding g2 by (subst f) simp
  show "rnd g2 = rnd g" unfolding g2 by (subst f) simp
qed

lemma score_check_paddles [simp]:
  "left_paddle (score_check g) = left_paddle g" "right_paddle (score_check g) = right_paddle g"
  by (simp_all add: score_check_def Let_def case_prod_beta)

lemma physics_right_paddle:
  assumes "physics st g = Some g'"
  shows "\<exists>ga. ai_step st g = Some ga \<and> right_paddle g' = right_paddle ga"
  using assms move_and_collide_ai by (fastforce simp: physics_def)

lemma ai_clamp_bound: "\<bar>max (- AI_MAX_SPEED) (min AI_MAX_SPEED d)\<bar> \<le> of_int 5"
  by (simp add: AI_MAX_SPEED_def abs_le_iff)

text \<open>
  Claim C8. In a non-paused tick that returns, with \<open>g1\<close> the state input handling left
  and \<open>diff\<close> the ball's \<open>y\<close> there minus the right paddle's vertical centre: if
  \<open>|diff| > 4\<close> the right paddle is the result of
  \<open>move_by(clamp(diff, -AI_MAX_SPEED, AI_MAX_SPEED))\<close>, which includes the clamping to
  the field, and otherwise it is unchanged. For a paddle inside the field the top edge
  therefore moves by at most \<open>AI_MAX_SPEED\<close> pixels in the tick. (\<open>move_by\<close> stores into an
  integer rectangle, so a fractional step is not kept as it is.)
\<close>

theorem ai_tracking:
  assumes "tick st inp g = Some g'" and "handle_input st inp g = Some g1" and "\<not> paused g1"
  shows "Some (right_paddle g') =
           (if \<bar>ai_diff g1\<bar> > 4
            then move_by st (max (- AI_MAX_SPEED) (min AI_MAX_SPEED (ai_diff g1))) (right_paddle g)
            else Some (right_paddle g))
       \<and> ai_diff g1 =
           ball_y (ball g1)
           - (of_int (rect_top (paddle_rect (right_paddle g)))
              + of_int (rect_height (paddle_rect (right_paddle g))) / 2)
       \<and> (store_ok st \<and> within_field (right_paddle g) \<longrightarrow>
            \<bar>of_int (rect_top (paddle_rect (right_paddle g'))
                     - rect_top (paddle_rect (right_paddle g)))\<bar> \<le> AI_MAX_SPEED)"
proof -
  have r1: "right_paddle g1 = right_paddle g" using assms(2) by (rule handle_input_fields(1))
  have "physics st g1 = Some g'" using assms by (simp add: tick_def)
  from physics_right_paddle [OF this] obtain ga
    where ga: "ai_step st g1 = Some ga" "right_paddle g' = right_paddle ga" by blast
  have step: "Some (right_paddle g') =
           (if \<bar>ai_diff g1\<bar> > 4
            then move_by st (max (- AI_MAX_SPEED) (min AI_MAX_SPEED (ai_diff g1))) (right_paddle g)
            else Some (right_paddle g))"
    using ga r1 by (auto simp: ai_step_def Let_def split: option.splits if_splits)
  have d: "ai_diff g1 = ball_y (ball g1)
           - (of_int (rect_top (paddle_rect (right_paddle g)))
              + of_int (rect_height (paddle_rect (right_paddle g))) / 2)"
    using r1 by (simp add: ai_diff_def)
  have bound: "\<bar>of_int (rect_top (paddle_rect (right_paddle g'))
                     - rect_top (paddle_rect (right_paddle g)))\<bar> \<le> AI_MAX_SPEED"
    if ok: "store_ok st" and w: "within_field (right_paddle g)"
  proof -
    have "\<bar>rect_top (paddle_rect (right_paddle g')) - rect_top (paddle_rect (right_paddle g))\<bar> \<le> 5"
    proof (cases "\<bar>ai_diff g1\<bar> > 4")
      case True
      then have mv: "move_by st (max (- AI_MAX_SPEED) (min AI_MAX_SPEED (ai_diff g1)))
                       (right_paddle g) = Some (right_paddle g')"
        using step by simp
      have "(5::int) \<le> INT_MAX - HEIGHT" by (simp add: INT_MAX_def HEIGHT_def)
      from move_by_displacement [OF ok w ai_clamp_bound this mv] show ?thesis .
    next
      case False
      then show ?thesis using step by simp
    qed
    then have "real_of_int \<bar>rect_top (paddle_rect (right_paddle g'))
                 - rect_top (paddle_rect (right_paddle g))\<bar> \<le> real_of_int 5"
      by (simp only: of_int_le_iff)
    then show ?thesis by (simp add: AI_MAX_SPEED_def)
  qed
  show ?thesis using step d bound by blast
qed

lemmas state_defs2 = game_far_def game_far_next_def game_near_def game_near_next_def

lemmas store_defs = move_by_def c_cast_def py_int_def INT_MIN_def INT_MAX_def

lemma tick_game_far: "tick c_cast idle game_far = Some game_far_next"
  by (simp add: state_defs state_defs2 step_defs store_defs config_defs Let_def)

text \<open>
  The rectangle's coordinate is an integer: with \<open>diff = 4.5\<close> the call is
  \<open>move_by(4.5)\<close>, and under the C cast the top goes from 200 to 204.
\<close>

lemma tick_game_near: "tick c_cast idle game_near = Some game_near_next"
  by (simp add: state_defs state_defs2 step_defs store_defs config_defs Let_def)

theorem ai_tracking_witness:
  "tick c_cast idle game_far = Some game_far_next
   \<and> handle_input c_cast idle game_far = Some game_far \<and> \<not> paused game_far
   \<and> ai_diff game_far = 50
   \<and> store_ok c_cast \<and> within_field (right_paddle game_far)
   \<and> rect_top (paddle_rect (right_paddle game_far)) = 200
   \<and> rect_top (paddle_rect (right_paddle game_far_next)) = 205
   \<and> \<bar>of_int (rect_top (paddle_rect (right_paddle game_far_next))
               - rect_top (paddle_rect (right_paddle game_far)))\<bar> \<le> AI_MAX_SPEED"
proof -
  have i: "handle_input c_cast idle game_far = Some game_far" by simp
  have p: "\<not> paused game_far" by (simp add: game_far_def game0_def)
  have w: "within_field (right_paddle game_far)"
    by (simp add: game_far_def game0_def paddleR_def within_field_def HEIGHT_def)
  have d: "ai_diff game_far = 50"
    by (simp add: ai_diff_def game_far_def game0_def paddleR_def ball0_def)
  have t0: "rect_top (paddle_rect (right_paddle game_far)) = 200"
    by (simp add: game_far_def game0_def paddleR_def)
  have t1: "rect_top (paddle_rect (right_paddle game_far_next)) = 205"
    by (simp add: game_far_next_def game0_def paddleR_def)
  have b: "\<bar>of_int (rect_top (paddle_rect (right_paddle game_far_next))
               - rect_top (paddle_rect (right_paddle game_far)))\<bar> \<le> AI_MAX_SPEED"
    using ai_tracking [OF tick_game_far i p] c_cast_ok w by blast
  show ?thesis by (intro conjI tick_game_far i p d c_cast_ok w t0 t1 b)
qed

section \<open>Scoring\<close>

lemma reset_ball_r [simp]: "ball_r (fst (reset s (b, rd))) = BALL_RADIUS"
  by (simp add: reset_def Let_def case_prod_beta)

lemma reset_seqs [simp]:
  "uniform_seq (snd (reset s (b, rd))) = uniform_seq rd"
  "choice_seq (snd (reset s (b, rd))) = choice_seq rd"
  by (simp_all add: reset_def Let_def case_prod_beta)

lemma reset_uniform_calls [simp]:
  "uniform_calls (snd (reset s (b, rd))) = Suc (uniform_calls rd)"
  by (simp add: reset_def Let_def case_prod_beta)

lemma handle_event_ball_r:
  "ball_r (ball g) = BALL_RADIUS \<Longrightarrow> ball_r (ball (handle_event g e)) = BALL_RADIUS"
  by (induction g e rule: handle_event.induct) (simp_all add: Let_def case_prod_beta)

lemma handle_event_seqs:
  "uniform_seq (rnd (handle_event g e)) = uniform_seq (rnd g)
   \<and> choice_seq (rnd (handle_event g e)) = choice_seq (rnd g)"
  by (induction g e rule: handle_event.induct) (simp_all add: Let_def case_prod_beta)

lemma handle_input_ball_r:
  assumes "ball_r (ball g) = BALL_RADIUS" and "handle_input st inp g = Some g1"
  shows "ball_r (ball g1) = BALL_RADIUS"
proof -
  have "ball_r (ball (foldl handle_event g es)) = BALL_RADIUS"
    if "ball_r (ball g) = BALL_RADIUS" for g es
    using that by (induction es arbitrary: g) (simp_all add: handle_event_ball_r)
  then show ?thesis
    using assms(1) handle_input_fields(2) [OF assms(2)] by (simp add: handle_events_def)
qed

lemma handle_input_seqs:
  assumes "handle_input st inp g = Some g1"
  shows "uniform_seq (rnd g1) = uniform_seq (rnd g) \<and> choice_seq (rnd g1) = choice_seq (rnd g)"
proof -
  have "uniform_seq (rnd (foldl handle_event g es)) = uniform_seq (rnd g)
      \<and> choice_seq (rnd (foldl handle_event g es)) = choice_seq (rnd g)" for g es
    by (induction es arbitrary: g) (simp_all add: handle_event_seqs)
  then show ?thesis
    using handle_input_fields(6) [OF assms] by (simp add: handle_events_def)
qed

lemma reflect_ball_r:
  "reflect_ball_from_paddle b p l = Some b' \<Longrightarrow> ball_r b' = ball_r b"
  by (auto simp: reflect_Some_iff)

lemma move_and_collide_ball_r:
  assumes "move_and_collide st g = Some g2"
  shows "ball_r (ball g2) = ball_r (ball g)"
proof -
  have w: "ball_r (wall_collision (update b)) = ball_r b" for b
    by (simp add: wall_collision_def update_def)
  have l: "left_paddle_collision p b = Some b' \<Longrightarrow> ball_r b' = ball_r b" for p b b'
    by (auto simp: left_paddle_collision_def dest: reflect_ball_r split: if_splits)
  have r: "right_paddle_collision p b = Some b' \<Longrightarrow> ball_r b' = ball_r b" for p b b'
    by (auto simp: right_paddle_collision_def dest: reflect_ball_r split: if_splits)
  from assms obtain ga b2 b3 where ga: "ai_step st g = Some ga" and
    c: "left_paddle_collision (left_paddle ga) (wall_collision (update (ball ga))) = Some b2"
    "right_paddle_collision (right_paddle ga) b2 = Some b3"
    "g2 = ga\<lparr>ball := b3\<rparr>"
    by (auto simp: move_and_collide_def split: option.splits)
  have "ball ga = ball g" by (subst ai_step_frame [OF ga]) simp
  then show ?thesis using c w [of "ball g"] l r by simp
qed

lemma score_check_scores:
  assumes "ball_r (ball g) = BALL_RADIUS"
  shows "left_score (score_check g)
           = left_score g + (if ball_x (ball g) + ball_r (ball g) \<ge> of_int WIDTH then 1 else 0)"
    and "right_score (score_check g)
           = right_score g + (if ball_x (ball g) - ball_r (ball g) \<le> 0 then 1 else 0)"
  using assms
  by (auto simp: score_check_def Let_def BALL_RADIUS_def WIDTH_def case_prod_beta)

text \<open>
  Claim C2. Let the ball have the radius \<open>Ball.reset\<close> gives it, and let \<open>g1\<close> be the state
  input handling left. In a paused tick the scores stay as they are in \<open>g1\<close>. In a
  non-paused tick, with \<open>g2\<close> the state the scoring test looks at (after the ball's
  advance and the collisions), \<open>left_score\<close> goes up by one exactly when \<open>x + r \<ge> WIDTH\<close>,
  \<open>right_score\<close> goes up by one exactly when \<open>x - r \<le> 0\<close>, and the two conditions never
  hold together. Input handling itself changes the scores only through the reset key.
\<close>

theorem score_conservation:
  assumes "ball_r (ball g) = BALL_RADIUS" and "handle_input st inp g = Some g1"
  shows "(paused g1 \<longrightarrow> tick st inp g = Some g1)
       \<and> (\<not> paused g1 \<and> move_and_collide st g1 = Some g2 \<longrightarrow>
            tick st inp g = Some (score_check g2)
          \<and> left_score (score_check g2)
              = left_score g1
                + (if ball_x (ball g2) + ball_r (ball g2) \<ge> of_int WIDTH then 1 else 0)
          \<and> right_score (score_check g2)
              = right_score g1
                + (if ball_x (ball g2) - ball_r (ball g2) \<le> 0 then 1 else 0)
          \<and> \<not> (ball_x (ball g2) + ball_r (ball g2) \<ge> of_int WIDTH
                \<and> ball_x (ball g2) - ball_r (ball g2) \<le> 0))
       \<and> (KEYDOWN K_r \<notin> set (events inp) \<longrightarrow>
            left_score g1 = left_score g \<and> right_score g1 = right_score g)"
proof -
  have run: "tick st inp g = Some (score_check g2)
          \<and> left_score (score_check g2)
              = left_score g1 + (if ball_x (ball g2) + ball_r (ball g2) \<ge> of_int WIDTH then 1 else 0)
          \<and> right_score (score_check g2)
              = right_score g1 + (if ball_x (ball g2) - ball_r (ball g2) \<le> 0 then 1 else 0)
          \<and> \<not> (ball_x (ball g2) + ball_r (ball g2) \<ge> of_int WIDTH
                \<and> ball_x (ball g2) - ball_r (ball g2) \<le> 0)"
    if np: "\<not> paused g1" and mc: "move_and_collide st g1 = Some g2"
  proof -
    have r2: "ball_r (ball g2) = BALL_RADIUS"
      using move_and_collide_ball_r [OF mc] handle_input_ball_r [OF assms] by simp
    have t: "tick st inp g = Some (score_check g2)"
      using assms(2) np mc by (simp add: tick_def physics_def)
    have excl: "\<not> (ball_x (ball g2) + ball_r (ball g2) \<ge> of_int WIDTH
                \<and> ball_x (ball g2) - ball_r (ball g2) \<le> 0)"
      unfolding r2 by (simp add: BALL_RADIUS_def WIDTH_def)
    show ?thesis
      using t excl score_check_scores [OF r2] move_and_collide_frame(2,3) [OF mc] by simp
  qed
  have p: "paused g1 \<longrightarrow> tick st inp g = Some g1" using tick_paused [OF assms(2)] by blast
  have k: "KEYDOWN K_r \<notin> set (events inp) \<longrightarrow>
            left_score g1 = left_score g \<and> right_score g1 = right_score g"
    using handle_input_no_reset(2,3) [OF assms(2)] by blast
  show ?thesis using run p k by blast
qed

lemmas exit_defs = exit_left_def exit_left_mid_def exit_left_next_def
  exit_right_def exit_right_mid_def exit_right_next_def

lemma exit_left_mid: "move_and_collide c_cast exit_left = Some exit_left_mid"
  by (simp add: state_defs exit_defs step_defs config_defs Let_def)

lemma exit_left_next: "score_check exit_left_mid = exit_left_next"
  by (simp add: state_defs exit_defs score_check_def reset_def config_defs Let_def)

lemma exit_right_mid: "move_and_collide c_cast exit_right = Some exit_right_mid"
  by (simp add: state_defs exit_defs step_defs config_defs Let_def)

lemma exit_right_next: "score_check exit_right_mid = exit_right_next"
  by (simp add: state_defs exit_defs score_check_def reset_def config_defs Let_def)

lemma valid_rd0_calls: "valid_random (rd0\<lparr>uniform_calls := m, choice_calls := n\<rparr>)"
  by (simp add: valid_random_def rd0_def)

theorem score_conservation_witness:
  "ball_r (ball exit_left) = BALL_RADIUS
   \<and> handle_input c_cast idle exit_left = Some exit_left
   \<and> \<not> paused exit_left
   \<and> move_and_collide c_cast exit_left = Some exit_left_mid
   \<and> KEYDOWN K_r \<notin> set (events idle)
   \<and> ball_x (ball exit_left_mid) - ball_r (ball exit_left_mid) \<le> 0
   \<and> tick c_cast idle exit_left = Some (score_check exit_left_mid)
   \<and> right_score (score_check exit_left_mid) = right_score exit_left + 1
   \<and> left_score (score_check exit_left_mid) = left_score exit_left"
proof -
  have r: "ball_r (ball exit_left) = BALL_RADIUS"
    by (simp add: exit_left_def ball0_def BALL_RADIUS_def)
  have i: "handle_input c_cast idle exit_left = Some exit_left" by simp
  have p: "\<not> paused exit_left" by (simp add: exit_left_def game0_def)
  have k: "KEYDOWN K_r \<notin> set (events idle)" by (simp add: idle_def)
  have x: "ball_x (ball exit_left_mid) - ball_r (ball exit_left_mid) \<le> 0"
    by (simp add: exit_left_mid_def ball0_def)
  have nx: "\<not> ball_x (ball exit_left_mid) + ball_r (ball exit_left_mid) \<ge> of_int WIDTH"
    by (simp add: exit_left_mid_def ball0_def WIDTH_def)
  note sc = score_conservation [OF r i, of exit_left_mid]
  have t: "tick c_cast idle exit_left = Some (score_check exit_left_mid)"
    using sc p exit_left_mid by blast
  have "right_score (score_check exit_left_mid)
          = right_score exit_left
            + (if ball_x (ball exit_left_mid) - ball_r (ball exit_left_mid) \<le> 0 then 1 else 0)"
    using sc p exit_left_mid by blast
  then have rs: "right_score (score_check exit_left_mid) = right_score exit_left + 1"
    using x by simp
  have "left_score (score_check exit_left_mid)
          = left_score exit_left
            + (if ball_x (ball exit_left_mid) + ball_r (ball exit_left_mid) \<ge> of_int WIDTH
               then 1 else 0)"
    using sc p exit_left_mid by blast
  then have ls: "left_score (score_check exit_left_mid) = left_score exit_left"
    using nx by simp
  show ?thesis by (intro conjI r i p exit_left_mid k x t rs ls)
qed

section \<open>Serve after a score\<close>

text \<open>
  The ball leaves through the left boundary: the right score goes up, and the serve
  that follows moves right (\<open>vx = 5\<close>), toward the side that scored, not toward the
  left side that conceded.
\<close>

theorem scoring_serve_counterexample:
  "valid_random (rnd exit_left) \<and> handle_input c_cast idle exit_left = Some exit_left
   \<and> \<not> paused exit_left
   \<and> move_and_collide c_cast exit_left = Some exit_left_mid
   \<and> ball_x (ball exit_left_mid) - ball_r (ball exit_left_mid) \<le> 0
   \<and> tick c_cast idle exit_left = Some exit_left_next
   \<and> right_score exit_left_next = right_score exit_left + 1
   \<and> \<not> ball_vx (ball exit_left_next) < 0"
proof -
  have np: "\<not> paused exit_left" by (simp add: exit_left_def game0_def)
  have t: "tick c_cast idle exit_left = Some exit_left_next"
    using exit_left_mid exit_left_next np by (simp add: tick_def physics_def)
  show ?thesis
    using t exit_left_mid
    by (simp add: valid_rd0_calls exit_defs game0_def ball0_def)
qed

text \<open>
  Claim C1, as the code has it. In a non-paused tick, with \<open>g1\<close> the state input handling
  left and \<open>g2\<close> the state the scoring test looks at: if the ball's left edge is at or
  beyond the left boundary (\<open>x - r \<le> 0\<close>), \<open>right_score\<close> goes up by exactly 1,
  \<open>left_score\<close> is unchanged and the ball is \<open>Ball.reset(serving_to='right')\<close>: at the
  field centre with \<open>vx > 0\<close>. Otherwise, if its right edge is at or beyond the right
  boundary (\<open>x + r \<ge> WIDTH\<close>), \<open>left_score\<close> goes up by exactly 1, \<open>right_score\<close> is
  unchanged and the ball is \<open>Ball.reset(serving_to='left')\<close>: at the field centre with
  \<open>vx < 0\<close>. The serve goes toward the side that scored.
\<close>

theorem scoring_serve:
  assumes "valid_random (rnd g)" and "handle_input st inp g = Some g1" and "\<not> paused g1"
    and "move_and_collide st g1 = Some g2"
  shows "(ball_x (ball g2) - ball_r (ball g2) \<le> 0 \<longrightarrow>
            tick st inp g = Some (score_check g2)
          \<and> right_score (score_check g2) = right_score g1 + 1
          \<and> left_score (score_check g2) = left_score g1
          \<and> ball (score_check g2) = fst (reset (Some ''right'') (ball g2, rnd g2))
          \<and> ball_vx (ball (score_check g2)) > 0
          \<and> ball_x (ball (score_check g2)) = of_int WIDTH / 2
          \<and> ball_y (ball (score_check g2)) = of_int HEIGHT / 2)
       \<and> (\<not> ball_x (ball g2) - ball_r (ball g2) \<le> 0
            \<and> ball_x (ball g2) + ball_r (ball g2) \<ge> of_int WIDTH \<longrightarrow>
            tick st inp g = Some (score_check g2)
          \<and> left_score (score_check g2) = left_score g1 + 1
          \<and> right_score (score_check g2) = right_score g1
          \<and> ball (score_check g2) = fst (reset (Some ''left'') (ball g2, rnd g2))
          \<and> ball_vx (ball (score_check g2)) < 0
          \<and> ball_x (ball (score_check g2)) = of_int WIDTH / 2
          \<and> ball_y (ball (score_check g2)) = of_int HEIGHT / 2)"
proof -
  have t: "tick st inp g = Some (score_check g2)"
    using assms(2,3,4) by (simp add: tick_def physics_def)
  have "rnd g2 = rnd g1" using move_and_collide_frame(5) [OF assms(4)] .
  then have "uniform_seq (rnd g2) = uniform_seq (rnd g)" "choice_seq (rnd g2) = choice_seq (rnd g)"
    using handle_input_seqs [OF assms(2)] by simp_all
  then have v: "valid_random (rnd g2)"
    using assms(1) by (simp add: valid_random_def)
  have sc: "left_score g2 = left_score g1" "right_score g2 = right_score g1"
    using move_and_collide_frame(2,3) [OF assms(4)] by simp_all
  define a where "a = uniform_seq (rnd g2) (uniform_calls (rnd g2))"
  have "- pi / 6 \<le> a" "a \<le> pi / 6" using v unfolding valid_random_def a_def by blast+
  then have "\<bar>a\<bar> < pi / 2" using pi_gt_zero by linarith
  then have ca: "0 < cos a" by (rule cos_pos_of_abs)
  have right_vx: "ball_vx (fst (reset (Some ''right'') (ball g2, rnd g2))) > 0"
    using ca by (simp add: reset_def Let_def a_def BALL_SPEED_def)
  have left_vx: "ball_vx (fst (reset (Some ''left'') (ball g2, rnd g2))) < 0"
    using ca by (simp add: reset_def Let_def a_def BALL_SPEED_def)
  have centre: "ball_x (fst (reset s (ball g2, rnd g2))) = of_int WIDTH / 2
              \<and> ball_y (fst (reset s (ball g2, rnd g2))) = of_int HEIGHT / 2" for s
    by (simp add: reset_def Let_def case_prod_beta)
  have L: "score_check g2 =
             g2\<lparr>right_score := right_score g2 + 1,
                ball := fst (reset (Some ''right'') (ball g2, rnd g2)),
                rnd := snd (reset (Some ''right'') (ball g2, rnd g2))\<rparr>"
    if "ball_x (ball g2) - ball_r (ball g2) \<le> 0"
    using that by (simp add: score_check_def case_prod_beta)
  have R: "score_check g2 =
             g2\<lparr>left_score := left_score g2 + 1,
                ball := fst (reset (Some ''left'') (ball g2, rnd g2)),
                rnd := snd (reset (Some ''left'') (ball g2, rnd g2))\<rparr>"
    if "\<not> ball_x (ball g2) - ball_r (ball g2) \<le> 0"
      "ball_x (ball g2) + ball_r (ball g2) \<ge> of_int WIDTH"
    using that by (simp add: score_check_def case_prod_beta)
  have A: "tick st inp g = Some (score_check g2)
          \<and> right_score (score_check g2) = right_score g1 + 1
          \<and> left_score (score_check g2) = left_score g1
          \<and> ball (score_check g2) = fst (reset (Some ''right'') (ball g2, rnd g2))
          \<and> ball_vx (ball (score_check g2)) > 0
          \<and> ball_x (ball (score_check g2)) = of_int WIDTH / 2
          \<and> ball_y (ball (score_check g2)) = of_int HEIGHT / 2"
    if c: "ball_x (ball g2) - ball_r (ball g2) \<le> 0"
    unfolding L [OF c] using t [unfolded L [OF c]] sc right_vx centre [of "Some ''right''"]
    by simp
  have B: "tick st inp g = Some (score_check g2)
          \<and> left_score (score_check g2) = left_score g1 + 1
          \<and> right_score (score_check g2) = right_score g1
          \<and> ball (score_check g2) = fst (reset (Some ''left'') (ball g2, rnd g2))
          \<and> ball_vx (ball (score_check g2)) < 0
          \<and> ball_x (ball (score_check g2)) = of_int WIDTH / 2
          \<and> ball_y (ball (score_check g2)) = of_int HEIGHT / 2"
    if c: "\<not> ball_x (ball g2) - ball_r (ball g2) \<le> 0"
      "ball_x (ball g2) + ball_r (ball g2) \<ge> of_int WIDTH"
    unfolding R [OF c] using t [unfolded R [OF c]] sc left_vx centre [of "Some ''left''"]
    by simp
  show ?thesis using A B by blast
qed

theorem scoring_serve_witness:
  "valid_random (rnd exit_right) \<and> handle_input c_cast idle exit_right = Some exit_right
   \<and> \<not> paused exit_right
   \<and> move_and_collide c_cast exit_right = Some exit_right_mid
   \<and> \<not> ball_x (ball exit_right_mid) - ball_r (ball exit_right_mid) \<le> 0
   \<and> ball_x (ball exit_right_mid) + ball_r (ball exit_right_mid) \<ge> of_int WIDTH
   \<and> tick c_cast idle exit_right = Some exit_right_next
   \<and> left_score exit_right_next = left_score exit_right + 1
   \<and> ball_vx (ball exit_right_next) < 0"
proof -
  have v: "valid_random (rnd exit_right)"
    by (simp add: exit_right_def game0_def valid_rd0_calls)
  have i: "handle_input c_cast idle exit_right = Some exit_right" by simp
  have p: "\<not> paused exit_right" by (simp add: exit_right_def game0_def)
  have nx: "\<not> ball_x (ball exit_right_mid) - ball_r (ball exit_right_mid) \<le> 0"
    by (simp add: exit_right_mid_def ball0_def)
  have x: "ball_x (ball exit_right_mid) + ball_r (ball exit_right_mid) \<ge> of_int WIDTH"
    by (simp add: exit_right_mid_def ball0_def WIDTH_def)
  note ss = scoring_serve [OF v i p exit_right_mid]
  have t: "tick c_cast idle exit_right = Some exit_right_next"
    using ss nx x exit_right_next by simp
  have "left_score (score_check exit_right_mid) = left_score exit_right + 1"
    using ss nx x by blast
  then have ls: "left_score exit_right_next = left_score exit_right + 1"
    using exit_right_next by simp
  have "ball_vx (ball (score_check exit_right_mid)) < 0" using ss nx x by blast
  then have vx: "ball_vx (ball exit_right_next) < 0" using exit_right_next by simp
  show ?thesis by (intro conjI v i p exit_right_mid nx x t ls vx)
qed

section \<open>Determinism\<close>

text \<open>
  Every call of \<open>Ball.reset\<close> draws one angle, and nothing else draws one: the number of
  angles drawn counts the calls of \<open>Ball.reset\<close>.
\<close>

lemma handle_event_calls_mono:
  "uniform_calls (rnd g) \<le> uniform_calls (rnd (handle_event g e))"
  by (induction g e rule: handle_event.induct) (simp_all add: Let_def case_prod_beta)

lemma handle_event_rnd_swap:
  "uniform_calls (rnd (handle_event g e)) = uniform_calls (rnd g) \<Longrightarrow>
   handle_event (g\<lparr>rnd := rd'\<rparr>) e = (handle_event g e)\<lparr>rnd := rd'\<rparr>
   \<and> rnd (handle_event g e) = rnd g"
  by (induction g e rule: handle_event.induct) (simp_all add: Let_def case_prod_beta)

lemma handle_events_calls_mono:
  "uniform_calls (rnd g) \<le> uniform_calls (rnd (handle_events es g))"
  unfolding handle_events_def
proof (induction es arbitrary: g)
  case Nil
  then show ?case by simp
next
  case (Cons e es)
  have "uniform_calls (rnd g) \<le> uniform_calls (rnd (handle_event g e))"
    by (rule handle_event_calls_mono)
  also have "\<dots> \<le> uniform_calls (rnd (foldl handle_event (handle_event g e) es))"
    by (rule Cons.IH)
  finally show ?case by simp
qed

lemma handle_events_rnd_swap:
  "uniform_calls (rnd (handle_events es g)) = uniform_calls (rnd g) \<Longrightarrow>
   handle_events es (g\<lparr>rnd := rd'\<rparr>) = (handle_events es g)\<lparr>rnd := rd'\<rparr>
   \<and> rnd (handle_events es g) = rnd g"
proof (induction es arbitrary: g)
  case Nil
  then show ?case by (simp add: handle_events_def)
next
  case (Cons e es)
  let ?g1 = "handle_event g e"
  have tail: "handle_events (e # es) h = handle_events es (handle_event h e)" for h
    by (simp add: handle_events_def)
  have a: "uniform_calls (rnd g) \<le> uniform_calls (rnd ?g1)" by (rule handle_event_calls_mono)
  have b: "uniform_calls (rnd ?g1) \<le> uniform_calls (rnd (handle_events es ?g1))"
    by (rule handle_events_calls_mono)
  have c: "uniform_calls (rnd (handle_events es ?g1)) = uniform_calls (rnd g)"
    using Cons.prems by (simp add: tail)
  have e1: "uniform_calls (rnd ?g1) = uniform_calls (rnd g)" using a b c by linarith
  have e2: "uniform_calls (rnd (handle_events es ?g1)) = uniform_calls (rnd ?g1)"
    using c e1 by simp
  show ?case
    using handle_event_rnd_swap [OF e1, of rd'] Cons.IH [OF e2] by (simp add: tail)
qed

lemma handle_keys_rnd_swap:
  assumes "handle_keys st inp g = Some g1"
  shows "handle_keys st inp (g\<lparr>rnd := rd'\<rparr>) = Some (g1\<lparr>rnd := rd'\<rparr>)"
  using assms
  by (auto simp: handle_keys_def key_up_def key_down_def split: option.splits if_splits)

lemma handle_input_calls_mono:
  assumes "handle_input st inp g = Some g1"
  shows "uniform_calls (rnd g) \<le> uniform_calls (rnd g1)"
  using handle_events_calls_mono [of g "events inp"] handle_input_fields(6) [OF assms] by simp

lemma handle_input_rnd_swap:
  assumes "handle_input st inp g = Some g1"
    and "uniform_calls (rnd g1) = uniform_calls (rnd g)"
  shows "handle_input st inp (g\<lparr>rnd := rd'\<rparr>) = Some (g1\<lparr>rnd := rd'\<rparr>) \<and> rnd g1 = rnd g"
proof -
  have r: "rnd g1 = rnd (handle_events (events inp) g)"
    using assms(1) by (rule handle_input_fields(6))
  then have "uniform_calls (rnd (handle_events (events inp) g)) = uniform_calls (rnd g)"
    using assms(2) by simp
  from handle_events_rnd_swap [OF this, of rd'] show ?thesis
    using assms(1) r handle_keys_rnd_swap [of st inp "handle_events (events inp) g" g1 rd']
    by (simp add: handle_input_def)
qed

lemma ai_step_rnd_swap:
  assumes "ai_step st g = Some ga"
  shows "ai_step st (g\<lparr>rnd := rd'\<rparr>) = Some (ga\<lparr>rnd := rd'\<rparr>)"
  using assms by (auto simp: ai_step_def ai_diff_def Let_def split: option.splits if_splits)

lemma move_and_collide_rnd_swap:
  assumes "move_and_collide st g = Some g2"
  shows "move_and_collide st (g\<lparr>rnd := rd'\<rparr>) = Some (g2\<lparr>rnd := rd'\<rparr>)"
proof -
  from assms obtain ga b2 b3 where ga: "ai_step st g = Some ga" and
    c: "left_paddle_collision (left_paddle ga) (wall_collision (update (ball ga))) = Some b2"
    "right_paddle_collision (right_paddle ga) b2 = Some b3"
    "g2 = ga\<lparr>ball := b3\<rparr>"
    by (auto simp: move_and_collide_def split: option.splits)
  show ?thesis
    using ai_step_rnd_swap [OF ga, of rd'] c by (simp add: move_and_collide_def)
qed

lemma score_check_calls_mono:
  "uniform_calls (rnd g) \<le> uniform_calls (rnd (score_check g))"
  by (simp add: score_check_def Let_def case_prod_beta)

lemma score_check_rnd_swap:
  "uniform_calls (rnd (score_check g)) = uniform_calls (rnd g) \<Longrightarrow>
   score_check (g\<lparr>rnd := rd'\<rparr>) = (score_check g)\<lparr>rnd := rd'\<rparr>
   \<and> rnd (score_check g) = rnd g"
  by (simp add: score_check_def Let_def case_prod_beta split: if_splits)

lemma physics_calls_mono:
  assumes "physics st g = Some g'"
  shows "uniform_calls (rnd g) \<le> uniform_calls (rnd g')"
proof -
  from assms obtain g2 where mc: "move_and_collide st g = Some g2" and g': "g' = score_check g2"
    by (auto simp: physics_def)
  have "rnd g2 = rnd g" using move_and_collide_frame(5) [OF mc] .
  then show ?thesis using score_check_calls_mono [of g2] g' by simp
qed

lemma physics_rnd_swap:
  assumes "physics st g = Some g'" and "uniform_calls (rnd g') = uniform_calls (rnd g)"
  shows "physics st (g\<lparr>rnd := rd'\<rparr>) = Some (g'\<lparr>rnd := rd'\<rparr>) \<and> rnd g' = rnd g"
proof -
  from assms(1) obtain g2 where mc: "move_and_collide st g = Some g2" and g': "g' = score_check g2"
    by (auto simp: physics_def)
  have r2: "rnd g2 = rnd g" using move_and_collide_frame(5) [OF mc] .
  have "uniform_calls (rnd (score_check g2)) = uniform_calls (rnd g2)"
    using assms(2) g' r2 by simp
  from score_check_rnd_swap [OF this, of rd'] show ?thesis
    using move_and_collide_rnd_swap [OF mc, of rd'] g' r2 by (simp add: physics_def)
qed

lemma tick_rnd_swap:
  assumes "tick st inp g = Some g'" and "uniform_calls (rnd g') = uniform_calls (rnd g)"
  shows "rnd g' = rnd g \<and> tick st inp (g\<lparr>rnd := rd'\<rparr>) = Some (g'\<lparr>rnd := rd'\<rparr>)"
proof -
  from tick_Some [OF assms(1)] obtain g1 where h: "handle_input st inp g = Some g1" by blast
  have a: "uniform_calls (rnd g) \<le> uniform_calls (rnd g1)"
    using h by (rule handle_input_calls_mono)
  show ?thesis
  proof (cases "paused g1")
    case True
    then have g': "g' = g1" using assms(1) h by (simp add: tick_def)
    then have "uniform_calls (rnd g1) = uniform_calls (rnd g)" using assms(2) by simp
    from handle_input_rnd_swap [OF h this, of rd'] show ?thesis
      using True g' by (simp add: tick_def)
  next
    case False
    then have ph: "physics st g1 = Some g'" using assms(1) h by (simp add: tick_def)
    have b: "uniform_calls (rnd g1) \<le> uniform_calls (rnd g')" using ph by (rule physics_calls_mono)
    have e1: "uniform_calls (rnd g1) = uniform_calls (rnd g)" using a b assms(2) by linarith
    have e2: "uniform_calls (rnd g') = uniform_calls (rnd g1)" using e1 assms(2) by simp
    show ?thesis
      using handle_input_rnd_swap [OF h e1, of rd'] physics_rnd_swap [OF ph e2, of rd'] False
      by (simp add: tick_def)
  qed
qed

text \<open>
  Claim C9. The rebound depends only on the ball's \<open>y\<close>, \<open>vx\<close>, \<open>vy\<close> and on the paddle's top
  and height: two calls that agree on these (and on the side) give the same velocity and
  speed, or both fail. And a tick in which \<open>Ball.reset\<close> is not called (no angle is
  drawn) does not read the generator: it leaves the generator as it was, and started
  with any other generator it yields the same successor state.
\<close>

theorem tick_deterministic:
  "(ball_y b1 = ball_y b2 \<and> ball_vx b1 = ball_vx b2 \<and> ball_vy b1 = ball_vy b2
      \<and> rect_top (paddle_rect p1) = rect_top (paddle_rect p2)
      \<and> rect_height (paddle_rect p1) = rect_height (paddle_rect p2) \<longrightarrow>
        map_option rebound_result (reflect_ball_from_paddle b1 p1 is_left)
          = map_option rebound_result (reflect_ball_from_paddle b2 p2 is_left))
   \<and> (tick st inp g = Some g' \<and> uniform_calls (rnd g') = uniform_calls (rnd g) \<longrightarrow>
        rnd g' = rnd g \<and> tick st inp (g\<lparr>rnd := rd'\<rparr>) = Some (g'\<lparr>rnd := rd'\<rparr>))"
proof -
  have "map_option rebound_result (reflect_ball_from_paddle b1 p1 is_left)
          = map_option rebound_result (reflect_ball_from_paddle b2 p2 is_left)"
    if "ball_y b1 = ball_y b2" "ball_vx b1 = ball_vx b2" "ball_vy b1 = ball_vy b2"
      "rect_top (paddle_rect p1) = rect_top (paddle_rect p2)"
      "rect_height (paddle_rect p1) = rect_height (paddle_rect p2)"
    using that by (simp add: reflect_ball_from_paddle_def rebound_result_def Let_def)
  then show ?thesis using tick_rnd_swap [of st inp g g' rd'] by blast
qed

theorem tick_deterministic_witness:
  "ball_y ball_in = ball_y ball_in2 \<and> ball_vx ball_in = ball_vx ball_in2
   \<and> ball_vy ball_in = ball_vy ball_in2
   \<and> rect_top (paddle_rect paddleL) = rect_top (paddle_rect paddleR)
   \<and> rect_height (paddle_rect paddleL) = rect_height (paddle_rect paddleR)
   \<and> map_option rebound_result (reflect_ball_from_paddle ball_in2 paddleR True)
       = Some (11 / 2, 0, 11 / 2)
   \<and> tick c_cast idle game0 = Some game1
   \<and> uniform_calls (rnd game1) = uniform_calls (rnd game0)
   \<and> tick c_cast idle (game0\<lparr>rnd := rd1\<rparr>) = Some (game1\<lparr>rnd := rd1\<rparr>)"
proof -
  have h: "ball_y ball_in = ball_y ball_in2" "ball_vx ball_in = ball_vx ball_in2"
    "ball_vy ball_in = ball_vy ball_in2"
    "rect_top (paddle_rect paddleL) = rect_top (paddle_rect paddleR)"
    "rect_height (paddle_rect paddleL) = rect_height (paddle_rect paddleR)"
    by (simp_all add: ball_in2_def paddleL_def paddleR_def)
  have c: "uniform_calls (rnd game1) = uniform_calls (rnd game0)"
    by (simp add: game1_def game0_def)
  note d = tick_deterministic [of ball_in ball_in2 paddleL paddleR True c_cast idle game0 game1 rd1]
  have "map_option rebound_result (reflect_ball_from_paddle ball_in paddleL True)
          = map_option rebound_result (reflect_ball_from_paddle ball_in2 paddleR True)"
    using d h by blast
  then have r: "map_option rebound_result (reflect_ball_from_paddle ball_in2 paddleR True)
       = Some (11 / 2, 0, 11 / 2)"
    by (simp add: reflect_center rebound_result_def ball_out_def)
  have t: "tick c_cast idle (game0\<lparr>rnd := rd1\<rparr>) = Some (game1\<lparr>rnd := rd1\<rparr>)"
    using d tick_game0 c by blast
  show ?thesis by (intro conjI h r tick_game0 c t)
qed

end
